theory Spec2Isabelle
  imports Main "HOL-Library.Word"
begin

section \<open>tp\_timer: timestamping for network flow analysis\<close>

text \<open>
  A shallow embedding of \<^verbatim>\<open>net/ipv4/tp_timer.c\<close> and \<^verbatim>\<open>tp_timer.h\<close>.

  Conventions of the embedding.
  \<^item> \<^verbatim>\<open>unsigned long\<close> and \<^verbatim>\<open>long\<close> are 64 bit words (an LP64 kernel), \<^verbatim>\<open>int\<close> and
    \<^verbatim>\<open>unsigned int\<close> are 32 bit words, \<^verbatim>\<open>short\<close> and \<^verbatim>\<open>unsigned short\<close> are 16 bit words.
    Arithmetic wraps; a signed value is read with \<open>sint\<close>.
  \<^item> \<^verbatim>\<open>cal_count\<close> is an \<^verbatim>\<open>int\<close> that only ever holds values between 0 and 101, so it is
    modelled as an unbounded \<open>int\<close>.
  \<^item> The static variables of the file are the fields of the record \<open>state\<close>. The wall clock
    read by \<^verbatim>\<open>do_gettimeofday\<close> is an input of the program: the state carries the sequence
    of values the clock will return and the number of reads done so far.
  \<^item> \<^verbatim>\<open>printk\<close> appends a message to the kernel log \<open>klog\<close>.
  \<^item> An access outside the object a pointer or an index refers to is undefined in C. The
    embedding makes it a value: such a function returns \<open>Inl\<close> of a \<open>fault\<close>.
  \<^item> Words in memory are little-endian, and \<^verbatim>\<open>vmalloc\<close> is taken to succeed.
  \<^item> \<^verbatim>\<open>tp_timer_seq\<close> picks the payload of a socket buffer and hands it to \<^verbatim>\<open>tp_timer_data\<close>; the
    embedding starts at \<^verbatim>\<open>tp_timer_data\<close>.
\<close>

subsection \<open>Constants\<close>

definition TP_TIMER_SPACE :: "64 word" where
  "TP_TIMER_SPACE = 500000"

definition TP_TIMER_CAL :: nat where
  "TP_TIMER_CAL = 100"

definition TP_TIMER_TRIMMEDMEAN :: nat where
  "TP_TIMER_TRIMMEDMEAN = 5"

subsection \<open>Data\<close>

record timeval =
  tv_sec :: "64 word"
  tv_usec :: "64 word"

text \<open>\<^verbatim>\<open>struct tp_timer_data\<close>. The field \<^verbatim>\<open>id\<close> is called \<open>probe\<close> and the field \<^verbatim>\<open>count\<close> is called
  \<open>ordinal\<close>, since \<open>id\<close> and \<open>count\<close> are constants of the library.\<close>

record tp_timer_data =
  probe :: "16 word"
  ts :: timeval
  seq :: "32 word"
  threadnr :: "32 word"
  timesrepeated :: "16 word"
  ordinal :: "64 word"

datatype fault = CalListOutOfBounds | BufferOutOfBounds | NullPointer

datatype kmsg =
    Implicit_initialization
  | Bytes_allocated
  | Memory_space_exceeded
  | Cal_list "64 word list"
  | Calibration_finished nat "64 word"

record state =
  tp_timer_space :: "(64 word \<Rightarrow> tp_timer_data) option"
  tp_timer_count :: "64 word"
  cal_usec :: "64 word"
  cal_mean :: "64 word"
  cal_list :: "64 word list"
  cal_count :: int
  clock :: "nat \<Rightarrow> timeval"
  ticks :: nat
  klog :: "kmsg list"

definition zero_data :: tp_timer_data where
  "zero_data = \<lparr>probe = 0, ts = \<lparr>tv_sec = 0, tv_usec = 0\<rparr>, seq = 0, threadnr = 0,
     timesrepeated = 0, ordinal = 0\<rparr>"

text \<open>The values of the static variables when the module is loaded: \<^verbatim>\<open>tp_timer_space = NULL\<close>,
  the counters and the calibration variables zero. The clock is the only parameter.\<close>

definition initial_state :: "(nat \<Rightarrow> timeval) \<Rightarrow> state" where
  "initial_state clk = \<lparr>tp_timer_space = None, tp_timer_count = 0, cal_usec = 0, cal_mean = 0,
     cal_list = replicate TP_TIMER_CAL 0, cal_count = 0, clock = clk, ticks = 0, klog = []\<rparr>"

definition printk :: "kmsg \<Rightarrow> state \<Rightarrow> state" where
  "printk m s = s\<lparr>klog := klog s @ [m]\<rparr>"

definition do_gettimeofday :: "state \<Rightarrow> timeval \<times> state" where
  "do_gettimeofday s = (clock s (ticks s), s\<lparr>ticks := Suc (ticks s)\<rparr>)"

subsection \<open>Calibration\<close>

definition cal_start :: "state \<Rightarrow> state" where
  "cal_start s =
     (if int TP_TIMER_CAL \<le> cal_count s then s
      else (case do_gettimeofday s of (cal_ts, s1) \<Rightarrow> s1\<lparr>cal_usec := tv_usec cal_ts\<rparr>))"

text \<open>\<^verbatim>\<open>a[i]\<close> for the array \<^verbatim>\<open>unsigned long cal_list[TP_TIMER_CAL]\<close>, the only array \<^verbatim>\<open>cal_sort\<close> is
  called with, and an index of type \<^verbatim>\<open>unsigned long\<close>. An index outside the array is a fault.\<close>

definition a_read :: "64 word list \<Rightarrow> 64 word \<Rightarrow> 64 word option" where
  "a_read a i =
     (if i < word_of_nat (min (length a) TP_TIMER_CAL) then Some (a ! unat i) else None)"

text \<open>\<^verbatim>\<open>x = a[i]; a[i] = a[j]; a[j] = x;\<close> at indices that have been read before.\<close>

definition a_swap :: "64 word list \<Rightarrow> 64 word \<Rightarrow> 64 word \<Rightarrow> 64 word list" where
  "a_swap a i j = (a[unat i := a ! unat j])[unat j := a ! unat i]"

lemma unat_inc_small: "unat (w :: 64 word) < 100 \<Longrightarrow> unat (w + 1) = Suc (unat w)"
  by (simp add: unat_word_ariths)

lemma unat_dec_small:
  "unat (w - 1 :: 64 word) < 100 \<Longrightarrow> unat w < 100 \<Longrightarrow> Suc (unat (w - 1)) = unat w"
proof (cases "w = 0")
  case True
  then show "unat (w - 1) < 100 \<Longrightarrow> Suc (unat (w - 1)) = unat w"
    by (simp add: unsigned_minus_1_eq_mask mask_eq_exp_minus_1)
next
  case False
  then have "unat w \<noteq> 0"
    by (simp add: unat_eq_zero)
  with False show ?thesis
    by (simp add: unat_minus_one)
qed

lemma a_read_iff:
  "a_read a i = (if unat i < min (length a) TP_TIMER_CAL then Some (a ! unat i) else None)"
proof -
  have "min (length a) TP_TIMER_CAL < 2 ^ 64"
    by (rule le_less_trans [of _ 100]) (simp_all add: TP_TIMER_CAL_def)
  then have "unat (word_of_nat (min (length a) TP_TIMER_CAL) :: 64 word) = min (length a) TP_TIMER_CAL"
    by (simp add: unat_of_nat)
  then show ?thesis
    by (simp add: a_read_def word_less_nat_alt)
qed

lemma a_read_Some: "a_read a i = Some x \<Longrightarrow> unat i < 100 \<and> unat i < length a \<and> x = a ! unat i"
  by (simp add: a_read_iff TP_TIMER_CAL_def split: if_splits)

text \<open>\<^verbatim>\<open>do { ++i; } while (a[i] < v);\<close>\<close>

function scan_up :: "64 word list \<Rightarrow> 64 word \<Rightarrow> 64 word \<Rightarrow> fault + 64 word" where
  "scan_up a v i =
     (case a_read a (i + 1) of
        None \<Rightarrow> Inl CalListOutOfBounds
      | Some x \<Rightarrow> if x < v then scan_up a v (i + 1) else Inr (i + 1))"
  by pat_completeness auto
termination
proof (relation "measure (\<lambda>(a, v, i). TP_TIMER_CAL - unat (i + 1))")
  show "wf (measure (\<lambda>(a, v, i). TP_TIMER_CAL - unat (i + 1)))"
    by simp
next
  fix a :: "64 word list" and v i x :: "64 word"
  assume "a_read a (i + 1) = Some x"
  then have b: "unat (i + 1) < 100"
    by (simp add: a_read_Some)
  then have "unat (i + 1 + 1) = Suc (unat (i + 1))"
    by (rule unat_inc_small)
  with b show "((a, v, i + 1), (a, v, i)) \<in> measure (\<lambda>(a, v, i). TP_TIMER_CAL - unat (i + 1))"
    by (simp add: TP_TIMER_CAL_def)
qed

text \<open>\<^verbatim>\<open>do { --j; } while (a[j] > v);\<close> The loop has no lower bound: below index 0 the
  \<^verbatim>\<open>unsigned long\<close> \<open>j\<close> wraps to the largest value, and \<^verbatim>\<open>a[j]\<close> is outside the array.\<close>

function scan_down :: "64 word list \<Rightarrow> 64 word \<Rightarrow> 64 word \<Rightarrow> fault + 64 word" where
  "scan_down a v j =
     (case a_read a (j - 1) of
        None \<Rightarrow> Inl CalListOutOfBounds
      | Some x \<Rightarrow> if v < x then scan_down a v (j - 1) else Inr (j - 1))"
  by pat_completeness auto
termination
proof (relation "measure (\<lambda>(a, v, j). if unat (j - 1) < TP_TIMER_CAL then Suc (unat (j - 1)) else 0)")
  show "wf (measure (\<lambda>(a, v, j). if unat (j - 1) < TP_TIMER_CAL then Suc (unat (j - 1)) else 0))"
    by simp
next
  fix a :: "64 word list" and v j x :: "64 word"
  assume "a_read a (j - 1) = Some x"
  then have b: "unat (j - 1) < 100"
    by (simp add: a_read_Some)
  have "unat (j - 1 - 1) < 100 \<Longrightarrow> Suc (unat (j - 1 - 1)) = unat (j - 1)"
    using b by (rule unat_dec_small [rotated])
  with b show "((a, v, j - 1), (a, v, j)) \<in>
      measure (\<lambda>(a, v, j). if unat (j - 1) < TP_TIMER_CAL then Suc (unat (j - 1)) else 0)"
    by (auto simp: TP_TIMER_CAL_def)
qed

lemma sint32_range: "- (2 ^ 31) \<le> sint (n :: 32 word) \<and> sint n < 2 ^ 31"
  using sint_ge [of n] sint_lt [of n] by simp

lemma take_bit_64_neg:
  assumes "k < 0" and "- (2 ^ 31) \<le> (k::int)"
  shows "take_bit 64 k = k + 2 ^ 64"
proof -
  have "take_bit 64 k = k mod 2 ^ 64"
    by (rule take_bit_eq_mod)
  also have "\<dots> = (k + 2 ^ 64) mod 2 ^ 64"
    by simp
  also have "\<dots> = k + 2 ^ 64"
    using assms by (intro mod_pos_pos_trivial) simp_all
  finally show ?thesis .
qed

lemma unat_word_of_int_64:
  assumes "- (2 ^ 31) \<le> (k::int)" and "k \<le> 2 ^ 31"
    and "unat (word_of_int k :: 64 word) \<le> 100"
  shows "int (unat (word_of_int k :: 64 word)) = k"
proof -
  have "uint (word_of_int k :: 64 word) = take_bit 64 k"
    by (simp add: uint_word_of_int_eq)
  then have u: "int (unat (word_of_int k :: 64 word)) = take_bit 64 k"
    by (simp only: uint_nat)
  show ?thesis
  proof (cases "0 \<le> k")
    case True
    with assms(2) have "take_bit 64 k = k"
      by (simp add: take_bit_int_eq_self)
    with u show ?thesis by simp
  next
    case False
    with assms(1) have "take_bit 64 k = k + 2 ^ 64"
      by (intro take_bit_64_neg) simp_all
    with u have "int (unat (word_of_int k :: 64 word)) = k + 2 ^ 64"
      by simp
    moreover have "int (unat (word_of_int k :: 64 word)) \<le> int 100"
      using assms(3) by (rule of_nat_mono)
    ultimately show ?thesis
      using assms(1) by simp
  qed
qed

lemma scast_index:
  assumes "unat (scast (n :: 32 word) :: 64 word) \<le> 100"
  shows "int (unat (scast n :: 64 word)) = sint n"
  using assms sint32_range [of n] unfolding scast_eq [of n]
  by (intro unat_word_of_int_64) simp_all

lemma scast_pred_succ:
  assumes "unat (scast (m - 1 :: 32 word) + 1 :: 64 word) \<le> 100"
  shows "int (unat (scast (m - 1) + 1 :: 64 word)) = sint m"
proof -
  have w: "(scast (m - 1) + 1 :: 64 word) = word_of_int (sint (m - 1) + 1)"
    by (simp only: scast_eq [of "m - 1"] wi_hom_add [symmetric] word_of_int_1)
  have r: "- (2 ^ 31) \<le> sint (m - 1) + 1 \<and> sint (m - 1) + 1 \<le> 2 ^ 31"
    using sint32_range [of "m - 1"] by simp
  have e: "int (unat (scast (m - 1) + 1 :: 64 word)) = sint (m - 1) + 1"
    using assms r unfolding w by (intro unat_word_of_int_64) simp_all
  show ?thesis
  proof (cases "sint m = - (2 ^ 31)")
    case True
    have "sint (m - 1) = signed_take_bit 31 (sint m - 1)"
      by (simp add: sint_word_diff)
    with True have "sint (m - 1) = 2 ^ 31 - 1"
      by simp
    with e have "int (unat (scast (m - 1) + 1 :: 64 word)) = 2 ^ 31"
      by simp
    moreover have "int (unat (scast (m - 1) + 1 :: 64 word)) \<le> int 100"
      using assms by (rule of_nat_mono)
    ultimately show ?thesis by simp
  next
    case False
    then have "- (2 ^ 31) \<le> sint m - 1 \<and> sint m - 1 < 2 ^ 31"
      using sint32_range [of m] by simp
    then have "signed_take_bit 31 (sint m - 1) = sint m - 1"
      by (simp add: signed_take_bit_int_eq_self)
    then have "sint (m - 1) = sint m - 1"
      by (simp add: sint_word_diff)
    with e show ?thesis by simp
  qed
qed

lemma ucast_index:
  assumes "unat (j :: 64 word) \<le> 100"
  shows "sint (ucast j :: 32 word) = int (unat j)"
proof -
  have "(ucast j :: 32 word) = word_of_nat (unat j)"
    by simp
  then have "sint (ucast j :: 32 word) = signed_take_bit 31 (int (unat j))"
    by (simp only: signed_of_nat) simp
  also have "\<dots> = int (unat j)"
  proof (rule signed_take_bit_int_eq_self)
    show "- (2 ^ 31) \<le> int (unat j)"
      by (rule order_trans [of _ 0]) simp_all
    have "int (unat j) \<le> int 100"
      using assms by (rule of_nat_mono)
    then show "int (unat j) < 2 ^ 31"
      by simp
  qed
  finally show ?thesis .
qed


lemma scan_up_bounds:
  "scan_up a v i = Inr i' \<Longrightarrow> unat (i + 1) \<le> unat i' \<and> unat i' < 100"
proof (induction a v i rule: scan_up.induct)
  case (1 a v i)
  show ?case
  proof (cases "a_read a (i + 1)")
    case None
    with "1.prems" show ?thesis by simp
  next
    case (Some x)
    then have b: "unat (i + 1) < 100" by (simp add: a_read_Some)
    show ?thesis
    proof (cases "x < v")
      case True
      with Some "1.prems" have "scan_up a v (i + 1) = Inr i'" by simp
      then have "unat (i + 1 + 1) \<le> unat i' \<and> unat i' < 100"
        using Some True by (rule "1.IH" [rotated 2])
      moreover have "unat (i + 1 + 1) = Suc (unat (i + 1))"
        using b by (rule unat_inc_small)
      ultimately show ?thesis by arith
    next
      case False
      with Some "1.prems" b show ?thesis by auto
    qed
  qed
qed

lemma scan_down_bounds:
  "scan_down a v j = Inr j' \<Longrightarrow> unat j' < unat j \<and> unat j' < 100"
proof (induction a v j rule: scan_down.induct)
  case (1 a v j)
  show ?case
  proof (cases "a_read a (j - 1)")
    case None
    with "1.prems" show ?thesis by simp
  next
    case (Some x)
    then have b: "unat (j - 1) < 100" by (simp add: a_read_Some)
    have nz: "j \<noteq> 0"
      using b by (auto simp: unsigned_minus_1_eq_mask mask_eq_exp_minus_1)
    then have "unat j \<noteq> 0" by (simp add: unat_eq_zero)
    with nz have lt: "unat (j - 1) < unat j" by (simp add: unat_minus_one)
    show ?thesis
    proof (cases "v < x")
      case True
      with Some "1.prems" have "scan_down a v (j - 1) = Inr j'" by simp
      then have "unat j' < unat (j - 1) \<and> unat j' < 100"
        using Some True by (rule "1.IH" [rotated 2])
      with lt show ?thesis by arith
    next
      case False
      with Some "1.prems" b lt show ?thesis by auto
    qed
  qed
qed

text \<open>The partitioning loop \<^verbatim>\<open>while (1) { ...; if (i >= j) break; x = a[i]; a[i] = a[j]; a[j] = x; }\<close>.
  It returns the array and the final \<open>i\<close> and \<open>j\<close>.\<close>

function partition_loop ::
  "64 word list \<Rightarrow> 64 word \<Rightarrow> 64 word \<Rightarrow> 64 word \<Rightarrow> fault + (64 word list \<times> 64 word \<times> 64 word)" where
  "partition_loop a v i j =
     (case scan_up a v i of
        Inl f \<Rightarrow> Inl f
      | Inr i' \<Rightarrow>
          (case scan_down a v j of
             Inl f \<Rightarrow> Inl f
           | Inr j' \<Rightarrow>
               if j' \<le> i' then Inr (a, i', j')
               else partition_loop (a_swap a i' j') v i' j'))"
  by pat_completeness auto
termination
proof (relation "measure (\<lambda>(a, v, i, j). TP_TIMER_CAL - unat (i + 1))")
  show "wf (measure (\<lambda>(a, v, i, j). TP_TIMER_CAL - unat (i + 1)))"
    by simp
next
  fix a :: "64 word list" and v i j i' j' :: "64 word"
  assume "scan_up a v i = Inr i'"
  then have b: "unat (i + 1) \<le> unat i' \<and> unat i' < 100"
    by (rule scan_up_bounds)
  then have "unat (i' + 1) = Suc (unat i')"
    by (simp add: unat_inc_small)
  with b have "100 - unat (i' + 1) < 100 - unat (i + 1)"
    by arith
  then show "((a_swap a i' j', v, i', j'), (a, v, i, j)) \<in>
      measure (\<lambda>(a, v, i, j). TP_TIMER_CAL - unat (i + 1))"
    by (simp add: TP_TIMER_CAL_def)
qed

lemma partition_loop_bounds:
  "partition_loop a v i j = Inr (a', i', j') \<Longrightarrow>
     unat (i + 1) \<le> unat i' \<and> unat i' < 100 \<and> unat j' < unat j \<and> unat j' < 100"
proof (induction a v i j rule: partition_loop.induct)
  case (1 a v i j)
  from "1.prems" obtain i1 where up: "scan_up a v i = Inr i1"
    by (cases "scan_up a v i") simp_all
  from "1.prems" up obtain j1 where down: "scan_down a v j = Inr j1"
    by (cases "scan_down a v j") simp_all
  note bi = scan_up_bounds [OF up] and bj = scan_down_bounds [OF down]
  show ?case
  proof (cases "j1 \<le> i1")
    case True
    with "1.prems" up down bi bj show ?thesis by simp
  next
    case False
    with "1.prems" up down have "partition_loop (a_swap a i1 j1) v i1 j1 = Inr (a', i', j')"
      by simp
    then have "unat (i1 + 1) \<le> unat i' \<and> unat i' < 100 \<and> unat j' < unat j1 \<and> unat j' < 100"
      using up down False by (rule "1.IH" [rotated 3])
    moreover have "unat (i1 + 1) = Suc (unat i1)"
      using bi by (simp add: unat_inc_small)
    ultimately show ?thesis using bi bj by arith
  qed
qed

text \<open>\<^verbatim>\<open>cal_sort(unsigned long a[], int m, int n)\<close>. \<^verbatim>\<open>i = m-1\<close> and \<^verbatim>\<open>j = n\<close> convert an \<^verbatim>\<open>int\<close>
  to \<^verbatim>\<open>unsigned long\<close> (\<open>scast\<close>); the recursive calls convert \<open>j\<close> and \<open>i+1\<close> back to
  \<^verbatim>\<open>int\<close> (\<open>ucast\<close>).\<close>

function cal_sort :: "64 word list \<Rightarrow> 32 word \<Rightarrow> 32 word \<Rightarrow> fault + 64 word list" where
  "cal_sort a m n =
     (if sint m < sint n then
        (case a_read a (scast n) of
           None \<Rightarrow> Inl CalListOutOfBounds
         | Some v \<Rightarrow>
             (case partition_loop a v (scast (m - 1)) (scast n) of
                Inl f \<Rightarrow> Inl f
              | Inr (a1, i, j) \<Rightarrow>
                  (case cal_sort (a_swap a1 i (scast n)) m (ucast j) of
                     Inl f \<Rightarrow> Inl f
                   | Inr a2 \<Rightarrow> cal_sort a2 (ucast (i + 1)) n)))
      else Inr a)"
  by pat_completeness auto

lemma cal_sort_calls:
  fixes m n :: "32 word"
  assumes lt: "sint m < sint n"
    and rd: "a_read a (scast n) = Some v"
    and pl: "partition_loop a v (scast (m - 1)) (scast n) = Inr (a1, i, j)"
  shows "sint (ucast j :: 32 word) < sint n" and "sint m < sint (ucast (i + 1) :: 32 word)"
proof -
  note b = partition_loop_bounds [OF pl]
  from rd have "unat (scast n :: 64 word) < 100"
    by (simp add: a_read_Some)
  then have "unat (scast n :: 64 word) \<le> 100"
    by simp
  then have n: "int (unat (scast n :: 64 word)) = sint n"
    by (rule scast_index)
  from b have "unat j \<le> 100"
    by simp
  then have j: "sint (ucast j :: 32 word) = int (unat j)"
    by (rule ucast_index)
  from b have "int (unat j) < int (unat (scast n :: 64 word))"
    by (simp only: of_nat_less_iff)
  with n j show "sint (ucast j :: 32 word) < sint n"
    by linarith
  have i1: "unat (i + 1) = Suc (unat i)"
    using b by (simp add: unat_inc_small)
  from b i1 have "unat (i + 1) \<le> 100"
    by simp
  then have i: "sint (ucast (i + 1) :: 32 word) = int (unat (i + 1))"
    by (rule ucast_index)
  have "unat (scast (m - 1) + 1 :: 64 word) \<le> 100"
    using b by simp
  then have m: "int (unat (scast (m - 1) + 1 :: 64 word)) = sint m"
    by (rule scast_pred_succ)
  from b have "int (unat (scast (m - 1) + 1 :: 64 word)) \<le> int (unat i)"
    by (simp only: of_nat_le_iff)
  moreover have "int (unat (i + 1)) = int (unat i) + 1"
    by (simp only: i1 of_nat_Suc)
  ultimately show "sint m < sint (ucast (i + 1) :: 32 word)"
    using m i by linarith
qed

termination cal_sort
proof (relation "measure (\<lambda>(a, m, n). nat (sint n - sint m))")
  show "wf (measure (\<lambda>(a, m, n). nat (sint n - sint m)))"
    by simp
next
  fix a a1 :: "64 word list" and m n :: "32 word" and v i j :: "64 word" and x y
  assume "sint m < sint n" "a_read a (scast n) = Some v"
    "partition_loop a v (scast (m - 1)) (scast n) = Inr x" "(a1, y) = x" "(i, j) = y"
  then have "sint (ucast j :: 32 word) < sint n"
    by (intro cal_sort_calls(1) [of m n a v a1 i j]) simp_all
  then show "((a_swap a1 i (scast n), m, ucast j), (a, m, n)) \<in> measure (\<lambda>(a, m, n). nat (sint n - sint m))"
    using \<open>sint m < sint n\<close> by simp
next
  fix a a1 a2 :: "64 word list" and m n :: "32 word" and v i j :: "64 word" and x y
  assume "sint m < sint n" "a_read a (scast n) = Some v"
    "partition_loop a v (scast (m - 1)) (scast n) = Inr x" "(a1, y) = x" "(i, j) = y"
  then have "sint m < sint (ucast (i + 1) :: 32 word)"
    by (intro cal_sort_calls(2) [of m n a v a1 i j]) simp_all
  then show "((a2, ucast (i + 1), n), (a, m, n)) \<in> measure (\<lambda>(a, m, n). nat (sint n - sint m))"
    using \<open>sint m < sint n\<close> by simp
qed

declare scan_up.simps [simp del] scan_down.simps [simp del] partition_loop.simps [simp del]
  cal_sort.simps [simp del]

text \<open>The bounds of the summation loop of \<^verbatim>\<open>cal_stop\<close>,
  \<^verbatim>\<open>(int)(TP_TIMER_CAL/100.0*TP_TIMER_TRIMMEDMEAN)\<close> and
  \<^verbatim>\<open>(int)(TP_TIMER_CAL/100.0*(100-TP_TIMER_TRIMMEDMEAN))\<close>. With the constants of the file the
  floating point products are the exact values 5.0 and 95.0.\<close>

definition trim_lo :: nat where
  "trim_lo = TP_TIMER_CAL * TP_TIMER_TRIMMEDMEAN div 100"

definition trim_hi :: nat where
  "trim_hi = TP_TIMER_CAL * (100 - TP_TIMER_TRIMMEDMEAN) div 100"

definition cal_print :: "state \<Rightarrow> state" where
  "cal_print s = printk (Cal_list (take TP_TIMER_CAL (cal_list s))) s"

text \<open>\<^verbatim>\<open>cal_stop(unsigned long usec)\<close>. The list \<open>cal_list\<close> stands for an array of
  \<open>TP_TIMER_CAL\<close> elements; an index outside the list is a fault.\<close>

definition cal_stop :: "64 word \<Rightarrow> state \<Rightarrow> fault + state" where
  "cal_stop usec s =
     (if int TP_TIMER_CAL \<le> cal_count s then Inr s
      else if cal_count s < 0 \<or> int (length (cal_list s)) \<le> cal_count s
        then Inl CalListOutOfBounds
      else
        let s1 = s\<lparr>cal_list := (cal_list s)[nat (cal_count s) := usec - cal_usec s]\<rparr>;
            s2 = s1\<lparr>cal_count := cal_count s1 + 1\<rparr>
        in
          if cal_count s2 = int TP_TIMER_CAL then
            (case cal_sort (cal_list s2) 0 (word_of_nat TP_TIMER_CAL - 1) of
               Inl f \<Rightarrow> Inl f
             | Inr a \<Rightarrow>
                 if length a < trim_hi then Inl CalListOutOfBounds
                 else
                   let s3 = cal_print (s2\<lparr>cal_list := a\<rparr>);
                       (mean, count) =
                          fold (\<lambda>i (mean, count). (mean + a ! i, count + 1))
                            [trim_lo..<trim_hi] (cal_mean s3, 0 :: int);
                       s4 = s3\<lparr>cal_mean := mean div word_of_int count\<rparr>;
                       s5 = printk (Calibration_finished TP_TIMER_TRIMMEDMEAN (cal_mean s4)) s4
                   in Inr (s5\<lparr>cal_count := cal_count s5 + 1\<rparr>))
          else Inr s2)"

subsection \<open>The event log\<close>

text \<open>\<^verbatim>\<open>tp_timer_init\<close>: \<^verbatim>\<open>vmalloc\<close> is taken to succeed, and the memory is zeroed. The proc file
  entry belongs to the kernel.\<close>

definition tp_timer_init :: "state \<Rightarrow> state" where
  "tp_timer_init s = printk Bytes_allocated (s\<lparr>tp_timer_space := Some (\<lambda>_. zero_data)\<rparr>)"

text \<open>\<^verbatim>\<open>tp_timer(id, seq, threadnr, timesrepeated)\<close>. The pointer \<^verbatim>\<open>data\<close> is the slot
  \<^verbatim>\<open>tp_timer_space + tp_timer_count\<close>; the assignments through it are done in the order of
  the source.\<close>

definition tp_timer :: "16 word \<Rightarrow> 32 word \<Rightarrow> 32 word \<Rightarrow> 16 word \<Rightarrow> state \<Rightarrow> fault + state" where
  "tp_timer ident sq thr rep s =
     (let s0 = (if tp_timer_space s = None
                then tp_timer_init (printk Implicit_initialization s) else s)
      in
        if TP_TIMER_SPACE \<le> tp_timer_count s0 then Inr (printk Memory_space_exceeded s0)
        else
          (case tp_timer_space s0 of
             None \<Rightarrow> Inl NullPointer
           | Some sp \<Rightarrow>
               let c = tp_timer_count s0;
                   d1 = (sp c)\<lparr>ordinal := c, probe := ident, seq := sq, threadnr := thr,
                          timesrepeated := rep\<rparr>;
                   (tv, s1) = do_gettimeofday s0;
                   d2 = d1\<lparr>ts := tv\<rparr>
               in
                 (case cal_stop (tv_usec (ts d2)) s1 of
                    Inl f \<Rightarrow> Inl f
                  | Inr s2 \<Rightarrow>
                      let d3 = d2\<lparr>ts := (ts d2)\<lparr>tv_usec := tv_usec (ts d2) - cal_mean s2\<rparr>\<rparr>
                      in Inr (s2\<lparr>tp_timer_space := Some (sp(c := d3)),
                                 tp_timer_count := c + 1\<rparr>))))"

text \<open>\<^verbatim>\<open>seq_show\<close> with the position \<^verbatim>\<open>*((loff_t *) v)\<close>, compared with the \<^verbatim>\<open>unsigned long\<close>
  counter as an unsigned value. The result is the record whose fields \<^verbatim>\<open>seq_printf\<close>
  prints, or \<open>None\<close> when nothing is printed.\<close>

definition seq_show :: "state \<Rightarrow> 64 word \<Rightarrow> fault + tp_timer_data option" where
  "seq_show s pos =
     (if tp_timer_count s \<le> pos then Inr None
      else (case tp_timer_space s of
              None \<Rightarrow> Inl NullPointer
            | Some sp \<Rightarrow> Inr (Some (sp pos))))"

text \<open>\<^verbatim>\<open>seq_next\<close>: the new position, or \<open>None\<close> at the end of the sequence.\<close>

definition seq_next :: "state \<Rightarrow> 64 word \<Rightarrow> 64 word option" where
  "seq_next s spos = (if tp_timer_count s \<le> spos then None else Some (spos + 1))"

text \<open>\<^verbatim>\<open>tp_release\<close>: \<^verbatim>\<open>memset\<close> of the whole array and reset of the counter.\<close>

definition tp_release :: "state \<Rightarrow> fault + state" where
  "tp_release s =
     (case tp_timer_space s of
        None \<Rightarrow> Inl NullPointer
      | Some sp \<Rightarrow> Inr (s\<lparr>tp_timer_space := Some (\<lambda>_. zero_data), tp_timer_count := 0\<rparr>))"

text \<open>A sequence of calls of \<^verbatim>\<open>tp_timer\<close>, each with its four arguments.\<close>

fun appends :: "(16 word \<times> 32 word \<times> 32 word \<times> 16 word) list \<Rightarrow> state \<Rightarrow> fault + state" where
  "appends [] s = Inr s"
| "appends ((ident, sq, thr, rep) # cs) s =
     (case tp_timer ident sq thr rep s of Inl f \<Rightarrow> Inl f | Inr s' \<Rightarrow> appends cs s')"


subsection \<open>Data collection\<close>

text \<open>
  \<^verbatim>\<open>tp_timer_data(id, data, tail)\<close> reads the memory the two pointers point into. The list
  \<open>mem\<close> is that memory, byte by byte, and \<open>data\<close> and \<open>tail\<close> are offsets into it; the buffer is
  the bytes from \<open>data\<close> up to, and not including, \<open>tail\<close>. The bytes of \<open>mem\<close> behind \<open>tail\<close> are
  what follows the buffer in the same object (the tail room of a socket buffer, for example).
  A read that leaves \<open>mem\<close> is a fault.

  \<^verbatim>\<open>*(int *) p\<close>: four bytes, the least significant first.
\<close>

definition rd32 :: "8 word list \<Rightarrow> nat \<Rightarrow> 32 word option" where
  "rd32 mem p =
     (if p + 4 \<le> length mem
      then Some (ucast (mem ! p) + push_bit 8 (ucast (mem ! (p + 1)))
                 + push_bit 16 (ucast (mem ! (p + 2))) + push_bit 24 (ucast (mem ! (p + 3))))
      else None)"

text \<open>The loop \<^verbatim>\<open>for (i = 0; i < 2; i++) if (*(((int*)data)+i) != 0xffffffff) break;\<close>
  followed by the test \<^verbatim>\<open>i == 2\<close>, and also the condition of the second \<^verbatim>\<open>while\<close> loop,
  \<^verbatim>\<open>*(int*)data == 0xffffffff && *(((int*)data)+1) == 0xffffffff\<close>: the second word is read
  only when the first one is all ones.\<close>

definition ff_pair :: "8 word list \<Rightarrow> nat \<Rightarrow> fault + bool" where
  "ff_pair mem data =
     (case rd32 mem data of
        None \<Rightarrow> Inl BufferOutOfBounds
      | Some w0 \<Rightarrow>
          if w0 \<noteq> 0xffffffff then Inr False
          else (case rd32 mem (data + 4) of
                  None \<Rightarrow> Inl BufferOutOfBounds
                | Some w1 \<Rightarrow> Inr (w1 = 0xffffffff)))"

text \<open>The first \<^verbatim>\<open>while (1)\<close> loop: \<open>Inr (Some data)\<close> when it leaves by \<^verbatim>\<open>break\<close>, \<open>Inr None\<close>
  when the function returns (\<^verbatim>\<open>// Mal formed\<close>).\<close>

function find_ff :: "8 word list \<Rightarrow> nat \<Rightarrow> nat \<Rightarrow> fault + nat option" where
  "find_ff mem tail data =
     (case ff_pair mem data of
        Inl f \<Rightarrow> Inl f
      | Inr True \<Rightarrow> Inr (Some data)
      | Inr False \<Rightarrow> if tail < data + 1 then Inr None else find_ff mem tail (data + 1))"
  by pat_completeness auto
termination
  by (relation "measure (\<lambda>(mem, tail, data). Suc tail - data)") auto

lemma ff_pair_True: "ff_pair mem data = Inr True \<Longrightarrow> data + 8 \<le> length mem"
  by (auto simp: ff_pair_def rd32_def split: option.splits if_splits)

text \<open>The second loop, \<^verbatim>\<open>while (...) { data++; }\<close>. It has no bound of its own.\<close>

function skip_ff :: "8 word list \<Rightarrow> nat \<Rightarrow> fault + nat" where
  "skip_ff mem data =
     (case ff_pair mem data of
        Inl f \<Rightarrow> Inl f
      | Inr True \<Rightarrow> skip_ff mem (data + 1)
      | Inr False \<Rightarrow> Inr data)"
  by pat_completeness auto
termination
  by (relation "measure (\<lambda>(mem, data). length mem - data)")
    (auto dest: ff_pair_True)

text \<open>The third loop, \<^verbatim>\<open>while (intdata <= (int*)tail - 2)\<close>, with the variables \<^verbatim>\<open>lastSeq\<close>,
  \<^verbatim>\<open>lastThreadnr\<close> and \<^verbatim>\<open>count\<close>. \<^verbatim>\<open>intdata += 4\<close> advances by four words. The \<^verbatim>\<open>int\<close> \<open>count\<close>
  is converted to the \<^verbatim>\<open>short\<close> parameter of \<^verbatim>\<open>tp_timer\<close>.\<close>

function seq_loop ::
  "16 word \<Rightarrow> 8 word list \<Rightarrow> nat \<Rightarrow> nat \<Rightarrow> 32 word \<Rightarrow> 32 word \<Rightarrow> 32 word \<Rightarrow> state
     \<Rightarrow> fault + (32 word \<times> 32 word \<times> 32 word \<times> state)" where
  "seq_loop ident mem tail intdata lastSeq lastThreadnr count s =
     (if intdata + 8 \<le> tail then
        (case rd32 mem (intdata + 4) of
           None \<Rightarrow> Inl BufferOutOfBounds
         | Some sq \<Rightarrow>
             (case rd32 mem intdata of
                None \<Rightarrow> Inl BufferOutOfBounds
              | Some thr \<Rightarrow>
                  if sq \<noteq> lastSeq \<or> thr \<noteq> lastThreadnr then
                    (case (if count \<noteq> 0 then tp_timer ident lastSeq lastThreadnr (ucast count) s
                           else Inr s) of
                       Inl f \<Rightarrow> Inl f
                     | Inr s' \<Rightarrow> seq_loop ident mem tail (intdata + 16) sq thr (0 + 1) s')
                  else seq_loop ident mem tail (intdata + 16) sq thr (count + 1) s))
      else Inr (lastSeq, lastThreadnr, count, s))"
  by pat_completeness auto
termination
  by (relation "measure (\<lambda>(ident, mem, tail, intdata, r). tail - intdata)") auto

text \<open>\<^verbatim>\<open>data--; data += 8;\<close> moves the pointer by seven bytes.\<close>

definition tp_timer_data :: "16 word \<Rightarrow> 8 word list \<Rightarrow> nat \<Rightarrow> nat \<Rightarrow> state \<Rightarrow> fault + state" where
  "tp_timer_data ident mem data tail s =
     (let s1 = cal_start s in
      case find_ff mem tail data of
        Inl f \<Rightarrow> Inl f
      | Inr None \<Rightarrow> Inr s1
      | Inr (Some p) \<Rightarrow>
          (case skip_ff mem p of
             Inl f \<Rightarrow> Inl f
           | Inr q \<Rightarrow>
               (case seq_loop ident mem tail (q + 8 - 1) 0 0 0 s1 of
                  Inl f \<Rightarrow> Inl f
                | Inr (lastSeq, lastThreadnr, count, s2) \<Rightarrow>
                    tp_timer ident lastSeq lastThreadnr (ucast count) s2)))"

declare find_ff.simps [simp del] skip_ff.simps [simp del] seq_loop.simps [simp del]

section \<open>Properties\<close>

subsection \<open>A full log rejects every append\<close>

lemma tp_timer_at_capacity:
  assumes "tp_timer_space s \<noteq> None" and "TP_TIMER_SPACE \<le> tp_timer_count s"
  shows "tp_timer ident sq thr rep s = Inr (s\<lparr>klog := klog s @ [Memory_space_exceeded]\<rparr>)"
  using assms by (auto simp: tp_timer_def printk_def)

text \<open>
  Claim C1. In a state whose log is allocated and holds \<open>TP_TIMER_SPACE\<close> records (or
  more), every sequence of further calls of \<^verbatim>\<open>tp_timer\<close> returns normally and leaves the
  whole state as it is, the array of records and the counter included, except that each
  call appends the overflow message \<^verbatim>\<open>tp_timer: memory space exceeded!\<close> to the kernel log.
\<close>

theorem append_at_capacity:
  assumes "tp_timer_space s \<noteq> None" and "TP_TIMER_SPACE \<le> tp_timer_count s"
  shows "appends cs s =
     Inr (s\<lparr>klog := klog s @ replicate (length cs) Memory_space_exceeded\<rparr>)"
  using assms
proof (induction cs arbitrary: s)
  case Nil
  then show ?case by simp
next
  case (Cons c cs)
  obtain ident sq thr rep where c: "c = (ident, sq, thr, rep)"
    by (cases c) auto
  let ?s = "s\<lparr>klog := klog s @ [Memory_space_exceeded]\<rparr>"
  have "appends cs ?s = Inr (?s\<lparr>klog := klog ?s @ replicate (length cs) Memory_space_exceeded\<rparr>)"
    using Cons.prems by (intro Cons.IH) simp_all
  with Cons.prems c show ?case
    by (simp add: tp_timer_at_capacity replicate_app_Cons_same)
qed

definition full_state :: state where
  "full_state = (initial_state (\<lambda>_. \<lparr>tv_sec = 0, tv_usec = 0\<rparr>))
     \<lparr>tp_timer_space := Some (\<lambda>_. zero_data), tp_timer_count := TP_TIMER_SPACE\<rparr>"

theorem append_at_capacity_witness:
  "tp_timer_space full_state \<noteq> None \<and> TP_TIMER_SPACE \<le> tp_timer_count full_state \<and>
   appends [(1, 5, 1, 3), (1, 6, 1, 1)] full_state =
     Inr (full_state\<lparr>klog := [Memory_space_exceeded, Memory_space_exceeded]\<rparr>)"
  using append_at_capacity [of full_state "[(1, 5, 1, 3), (1, 6, 1, 1)]"]
  by (simp add: full_state_def initial_state_def)

subsection \<open>Appended records are read back\<close>

lemma cal_stop_log:
  assumes "cal_stop usec s = Inr s'"
  shows "tp_timer_space s' = tp_timer_space s \<and> tp_timer_count s' = tp_timer_count s
    \<and> clock s' = clock s \<and> ticks s' = ticks s"
proof (cases "int TP_TIMER_CAL \<le> cal_count s")
  case True
  with assms show ?thesis by (simp add: cal_stop_def)
next
  case False
  show ?thesis
  proof (cases "cal_count s + 1 = int TP_TIMER_CAL")
    case True
    with False assms show ?thesis
      by (auto simp: cal_stop_def Let_def cal_print_def printk_def split_beta
          split: if_splits sum.splits)
  next
    case ne: False
    with False assms show ?thesis
      by (auto simp: cal_stop_def Let_def split: if_splits)
  qed
qed

definition slots :: "state \<Rightarrow> 64 word \<Rightarrow> tp_timer_data" where
  "slots s = (case tp_timer_space s of None \<Rightarrow> (\<lambda>_. zero_data) | Some sp \<Rightarrow> sp)"

lemma tp_timer_Inr:
  assumes ok: "tp_timer ident sq thr rep s = Inr s'" and room: "tp_timer_count s < TP_TIMER_SPACE"
  shows "tp_timer_count s' = tp_timer_count s + 1"
    and "tp_timer_space s' \<noteq> None"
    and "probe (slots s' (tp_timer_count s)) = ident"
    and "seq (slots s' (tp_timer_count s)) = sq"
    and "threadnr (slots s' (tp_timer_count s)) = thr"
    and "timesrepeated (slots s' (tp_timer_count s)) = rep"
    and "ordinal (slots s' (tp_timer_count s)) = tp_timer_count s"
    and "\<And>i. i \<noteq> tp_timer_count s \<Longrightarrow> slots s' i = slots s i"
proof -
  define s0 where "s0 = (if tp_timer_space s = None
    then tp_timer_init (printk Implicit_initialization s) else s)"
  have sp: "tp_timer_space s0 = Some (slots s)"
    by (auto simp: s0_def slots_def tp_timer_init_def printk_def)
  have cnt: "tp_timer_count s0 = tp_timer_count s"
    by (simp add: s0_def tp_timer_init_def printk_def)
  define tv where "tv = clock s0 (ticks s0)"
  define d where "d = (slots s (tp_timer_count s))\<lparr>ordinal := tp_timer_count s, probe := ident,
    seq := sq, threadnr := thr, timesrepeated := rep, ts := tv\<rparr>"
  from room have nfull: "\<not> TP_TIMER_SPACE \<le> tp_timer_count s"
    by (simp only: not_le)
  have "tp_timer ident sq thr rep s =
    (case cal_stop (tv_usec tv) (s0\<lparr>ticks := Suc (ticks s0)\<rparr>) of
       Inl f \<Rightarrow> Inl f
     | Inr s2 \<Rightarrow> Inr (s2\<lparr>tp_timer_space :=
          Some ((slots s)(tp_timer_count s := d\<lparr>ts := tv\<lparr>tv_usec := tv_usec tv - cal_mean s2\<rparr>\<rparr>)),
          tp_timer_count := tp_timer_count s + 1\<rparr>))"
    unfolding tp_timer_def s0_def [symmetric] Let_def
    by (simp add: nfull sp cnt do_gettimeofday_def tv_def d_def cong: sum.case_cong)
  with ok obtain s2 where
    s': "s' = s2\<lparr>tp_timer_space :=
          Some ((slots s)(tp_timer_count s := d\<lparr>ts := tv\<lparr>tv_usec := tv_usec tv - cal_mean s2\<rparr>\<rparr>)),
          tp_timer_count := tp_timer_count s + 1\<rparr>"
    by (auto split: sum.splits)
  show "tp_timer_count s' = tp_timer_count s + 1"
    by (simp add: s')
  show "tp_timer_space s' \<noteq> None"
    by (simp add: s')
  show "probe (slots s' (tp_timer_count s)) = ident"
    by (simp add: s' slots_def d_def)
  show "seq (slots s' (tp_timer_count s)) = sq"
    by (simp add: s' slots_def d_def)
  show "threadnr (slots s' (tp_timer_count s)) = thr"
    by (simp add: s' slots_def d_def)
  show "timesrepeated (slots s' (tp_timer_count s)) = rep"
    by (simp add: s' slots_def d_def)
  show "ordinal (slots s' (tp_timer_count s)) = tp_timer_count s"
    by (simp add: s' slots_def d_def)
  show "\<And>i. i \<noteq> tp_timer_count s \<Longrightarrow> slots s' i = slots s i"
    by (simp add: s' slots_def)
qed

lemma appends_append:
  "appends (xs @ ys) s = (case appends xs s of Inl f \<Rightarrow> Inl f | Inr s' \<Rightarrow> appends ys s')"
  by (induction xs arbitrary: s) (auto split: sum.splits)

lemma unat_of_nat_index: "n \<le> 500000 \<Longrightarrow> unat (word_of_nat n :: 64 word) = n"
  by (simp add: unat_of_nat)

lemma index_less_space: "n < 500000 \<Longrightarrow> (word_of_nat n :: 64 word) < TP_TIMER_SPACE"
  by (simp add: word_less_nat_alt unat_of_nat_index TP_TIMER_SPACE_def)

lemma index_less: "i < n \<Longrightarrow> n \<le> 500000 \<Longrightarrow> (word_of_nat i :: 64 word) < word_of_nat n"
  by (simp add: word_less_nat_alt unat_of_nat_index)

text \<open>The log holds exactly the calls \<open>cs\<close>: the counter is their number, and slot \<open>i\<close> holds
  the arguments of call \<open>i\<close> and the ordinal \<open>i\<close>.\<close>

definition holds :: "state \<Rightarrow> (16 word \<times> 32 word \<times> 32 word \<times> 16 word) list \<Rightarrow> bool" where
  "holds s cs \<longleftrightarrow>
     tp_timer_count s = word_of_nat (length cs) \<and>
     (cs \<noteq> [] \<longrightarrow> tp_timer_space s \<noteq> None) \<and>
     (\<forall>i < length cs.
        (probe (slots s (word_of_nat i)), seq (slots s (word_of_nat i)),
         threadnr (slots s (word_of_nat i)), timesrepeated (slots s (word_of_nat i))) = cs ! i \<and>
        ordinal (slots s (word_of_nat i)) = word_of_nat i)"

lemma holds_step:
  assumes h: "holds s cs" and len: "length cs < 500000"
    and ok: "tp_timer ident sq thr rep s = Inr s'"
  shows "holds s' (cs @ [(ident, sq, thr, rep)])"
proof -
  from h have cnt: "tp_timer_count s = word_of_nat (length cs)"
    by (simp add: holds_def)
  with len have room: "tp_timer_count s < TP_TIMER_SPACE"
    by (simp add: index_less_space)
  note step = tp_timer_Inr [OF ok room]
  have new: "\<And>i. i < length cs \<Longrightarrow> slots s' (word_of_nat i) = slots s (word_of_nat i)"
  proof -
    fix i assume "i < length cs"
    with len have "(word_of_nat i :: 64 word) < word_of_nat (length cs)"
      by (simp add: index_less)
    then have "(word_of_nat i :: 64 word) \<noteq> tp_timer_count s"
      by (simp add: cnt)
    then show "slots s' (word_of_nat i) = slots s (word_of_nat i)"
      by (rule step(8))
  qed
  show ?thesis
    unfolding holds_def
  proof (intro conjI allI impI)
    show "tp_timer_count s' = word_of_nat (length (cs @ [(ident, sq, thr, rep)]))"
      by (simp add: step(1) cnt)
    show "tp_timer_space s' \<noteq> None"
      by (rule step(2))
  next
    fix i assume i: "i < length (cs @ [(ident, sq, thr, rep)])"
    show "(probe (slots s' (word_of_nat i)), seq (slots s' (word_of_nat i)),
         threadnr (slots s' (word_of_nat i)), timesrepeated (slots s' (word_of_nat i))) =
         (cs @ [(ident, sq, thr, rep)]) ! i"
    proof (cases "i < length cs")
      case True
      with h new show ?thesis by (simp add: holds_def nth_append)
    next
      case False
      with i have "i = length cs" by simp
      with step cnt show ?thesis by (simp add: nth_append)
    qed
    show "ordinal (slots s' (word_of_nat i)) = word_of_nat i"
    proof (cases "i < length cs")
      case True
      with h new show ?thesis by (simp add: holds_def)
    next
      case False
      with i have "i = length cs" by simp
      with step cnt show ?thesis by simp
    qed
  qed
qed

lemma appends_holds:
  assumes "tp_timer_count s0 = 0" and "length cs \<le> 500000" and "appends cs s0 = Inr s"
  shows "holds s cs"
  using assms(2,3)
proof (induction cs arbitrary: s rule: rev_induct)
  case Nil
  with assms(1) show ?case by (simp add: holds_def)
next
  case (snoc c cs)
  obtain ident sq thr rep where c: "c = (ident, sq, thr, rep)"
    by (cases c) auto
  from snoc.prems(2) obtain s1 where s1: "appends cs s0 = Inr s1"
    and last: "tp_timer ident sq thr rep s1 = Inr s"
    by (auto simp: appends_append c split: sum.splits)
  from snoc.prems(1) have "length cs \<le> 500000" and lt: "length cs < 500000"
    by simp_all
  then have "holds s1 cs"
    using s1 by (intro snoc.IH)
  then show ?case
    unfolding c using lt last by (rule holds_step)
qed

lemma seq_show_slot:
  assumes "holds s cs" and "i < length cs" and "length cs \<le> 500000"
  shows "seq_show s (word_of_nat i) = Inr (Some (slots s (word_of_nat i)))"
proof -
  from assms have "(word_of_nat i :: 64 word) < tp_timer_count s"
    by (simp add: holds_def index_less)
  then have "\<not> tp_timer_count s \<le> word_of_nat i"
    by (simp only: not_le)
  moreover from assms have "tp_timer_space s \<noteq> None"
    by (auto simp: holds_def)
  ultimately show ?thesis
    by (auto simp: seq_show_def slots_def)
qed

text \<open>
  Runs that complete. Start from an empty log (\<open>tp_timer_count = 0\<close>) and run the calls \<open>cs\<close>
  of \<^verbatim>\<open>tp_timer\<close>, at most \<open>TP_TIMER_SPACE\<close> of them. If no call ends in the out-of-bounds
  access of the calibration sort, the counter equals the number of calls, and for every \<open>i\<close>
  below it \<^verbatim>\<open>seq_show\<close> at position \<open>i\<close> prints a record whose id, sequence number, thread
  number and repeat count are the arguments of call \<open>i\<close>. The hundredth call of a run is the
  one that can end in that access; a run in which it does is evaluated below.
\<close>

lemma appends_read_back:
  assumes "tp_timer_count s0 = 0" and "length cs \<le> unat TP_TIMER_SPACE"
    and "appends cs s0 = Inr s"
  shows "tp_timer_count s = word_of_nat (length cs) \<and>
    (\<forall>i < length cs. \<exists>d. seq_show s (word_of_nat i) = Inr (Some d) \<and>
        (probe d, seq d, threadnr d, timesrepeated d) = cs ! i)"
proof -
  from assms(2) have len: "length cs \<le> 500000"
    by (simp add: TP_TIMER_SPACE_def)
  with assms have h: "holds s cs"
    by (intro appends_holds)
  show ?thesis
  proof (intro conjI allI impI)
    from h show "tp_timer_count s = word_of_nat (length cs)"
      by (simp add: holds_def)
  next
    fix i assume i: "i < length cs"
    with h len have "seq_show s (word_of_nat i) = Inr (Some (slots s (word_of_nat i)))"
      by (intro seq_show_slot)
    moreover from h i have "(probe (slots s (word_of_nat i)), seq (slots s (word_of_nat i)),
         threadnr (slots s (word_of_nat i)), timesrepeated (slots s (word_of_nat i))) = cs ! i"
      by (simp add: holds_def)
    ultimately show "\<exists>d. seq_show s (word_of_nat i) = Inr (Some d) \<and>
        (probe d, seq d, threadnr d, timesrepeated d) = cs ! i"
      by blast
  qed
qed

definition demo_clock :: "nat \<Rightarrow> timeval" where
  "demo_clock n = \<lparr>tv_sec = 1000 + word_of_nat n, tv_usec = 250 * word_of_nat n\<rparr>"

definition demo_calls :: "(16 word \<times> 32 word \<times> 32 word \<times> 16 word) list" where
  "demo_calls = [(1, 10, 7, 1), (2, 11, 7, 2), (3, 12, 8, 1)]"

lemma demo_run: "\<not> isl (appends demo_calls (initial_state demo_clock))"
  by code_simp

lemma appends_read_back_witness:
  "tp_timer_count (initial_state demo_clock) = 0 \<and> length demo_calls \<le> unat TP_TIMER_SPACE \<and>
   (\<exists>s. appends demo_calls (initial_state demo_clock) = Inr s \<and> tp_timer_count s = 3 \<and>
      (\<exists>d. seq_show s 0 = Inr (Some d) \<and>
         (probe d, seq d, threadnr d, timesrepeated d) = (1, 10, 7, 1)) \<and>
      (\<exists>d. seq_show s 1 = Inr (Some d) \<and>
         (probe d, seq d, threadnr d, timesrepeated d) = (2, 11, 7, 2)) \<and>
      (\<exists>d. seq_show s 2 = Inr (Some d) \<and>
         (probe d, seq d, threadnr d, timesrepeated d) = (3, 12, 8, 1)))"
proof -
  let ?s0 = "initial_state demo_clock"
  have e: "tp_timer_count ?s0 = 0"
    by (simp add: initial_state_def)
  have l: "length demo_calls \<le> unat TP_TIMER_SPACE"
    by (simp add: demo_calls_def TP_TIMER_SPACE_def)
  from demo_run obtain s where s: "appends demo_calls ?s0 = Inr s"
    by (cases "appends demo_calls ?s0") auto
  note r = appends_read_back [OF e l s]
  from r have c: "tp_timer_count s = 3"
    by (simp add: demo_calls_def)
  note q = r [THEN conjunct2, rule_format]
  have "(\<exists>d. seq_show s 0 = Inr (Some d) \<and>
         (probe d, seq d, threadnr d, timesrepeated d) = (1, 10, 7, 1))"
    using q [of 0] by (simp add: demo_calls_def)
  moreover have "(\<exists>d. seq_show s 1 = Inr (Some d) \<and>
         (probe d, seq d, threadnr d, timesrepeated d) = (2, 11, 7, 2))"
    using q [of 1] by (simp add: demo_calls_def)
  moreover have "(\<exists>d. seq_show s 2 = Inr (Some d) \<and>
         (probe d, seq d, threadnr d, timesrepeated d) = (3, 12, 8, 1))"
    using q [of 2] by (simp add: demo_calls_def)
  ultimately show ?thesis
    using e l s c by blast
qed

subsection \<open>The scanner emits the runs of the pairs it walks over\<close>

text \<open>The pairs (thread number, sequence number) the third loop reads: one every sixteen
  bytes, as long as eight bytes are left before \<open>tail\<close>.\<close>

function walk :: "8 word list \<Rightarrow> nat \<Rightarrow> nat \<Rightarrow> (32 word \<times> 32 word) list" where
  "walk mem tail p =
     (if p + 8 \<le> tail then
        (case (rd32 mem p, rd32 mem (p + 4)) of
           (Some thr, Some sq) \<Rightarrow> (thr, sq) # walk mem tail (p + 16)
         | _ \<Rightarrow> [])
      else [])"
  by pat_completeness auto
termination
  by (relation "measure (\<lambda>(mem, tail, p). tail - p)") auto

declare walk.simps [simp del]

text \<open>Run aggregation as the specification words it: keep a current run (a pair and a
  count); a pair that differs from the current run closes it, which emits its tuple unless
  the count is zero, and starts a new run; at the end the open run is emitted whatever its
  count.\<close>

fun runs :: "32 word \<times> 32 word \<Rightarrow> nat \<Rightarrow> (32 word \<times> 32 word) list
    \<Rightarrow> ((32 word \<times> 32 word) \<times> nat) list" where
  "runs cur n [] = [(cur, n)]"
| "runs cur n (p # ps) =
     (if p \<noteq> cur then (if n = 0 then [] else [(cur, n)]) @ runs p 1 ps
      else runs cur (Suc n) ps)"

text \<open>A tuple (stream, sequence, count) as the call of \<^verbatim>\<open>tp_timer\<close> that logs it.\<close>

definition emit :: "16 word \<Rightarrow> (32 word \<times> 32 word) \<times> nat \<Rightarrow> 16 word \<times> 32 word \<times> 32 word \<times> 16 word" where
  "emit ident r = (ident, snd (fst r), fst (fst r), word_of_nat (snd r))"

lemma emit_tuple [simp]: "emit ident ((thr, sq), n) = (ident, sq, thr, word_of_nat n)"
  by (simp add: emit_def)

lemma count_nonzero: "n < 2 ^ 31 \<Longrightarrow> (word_of_nat n :: 32 word) = 0 \<longleftrightarrow> n = 0"
proof (cases "n = 0")
  case True
  then show ?thesis by simp
next
  case False
  assume "n < 2 ^ 31"
  with False have "(word_of_nat n :: 32 word) \<noteq> 0"
    by (intro of_nat_neq_0) simp_all
  with False show ?thesis by simp
qed

lemma count_short: "(ucast (word_of_nat n :: 32 word) :: 16 word) = word_of_nat n"
  by (simp add: unsigned_of_nat take_bit_word_eq_self of_nat_take_bit)

lemma rd32_Some: "p + 4 \<le> length mem \<Longrightarrow> \<exists>w. rd32 mem p = Some w"
  by (simp add: rd32_def)

lemma seq_loop_runs:
  assumes "tail \<le> length mem" and "n + length (walk mem tail x) < 2 ^ 31"
  shows "(case seq_loop ident mem tail x lsq lthr (word_of_nat n) s of
            Inl f \<Rightarrow> Inl f
          | Inr (a, b, c, s') \<Rightarrow> tp_timer ident a b (ucast c) s') =
         appends (map (emit ident) (runs (lthr, lsq) n (walk mem tail x))) s"
  using assms
proof (induction mem tail x arbitrary: lsq lthr n s rule: walk.induct)
  case (1 mem tail p)
  show ?case
  proof (cases "p + 8 \<le> tail")
    case False
    then show ?thesis
      by (simp add: seq_loop.simps [of _ _ _ p] walk.simps [of _ _ p] count_short
          split: sum.splits)
  next
    case True
    with "1.prems"(1) obtain thr sq where thr: "rd32 mem p = Some thr"
      and sq: "rd32 mem (p + 4) = Some sq"
      using rd32_Some [of p mem] rd32_Some [of "p + 4" mem] by auto
    have w: "walk mem tail p = (thr, sq) # walk mem tail (p + 16)"
      using True thr sq by (simp add: walk.simps [of _ _ p])
    with "1.prems"(2) have n: "n < 2 ^ 31" and n': "Suc n + length (walk mem tail (p + 16)) < 2 ^ 31"
      and one: "1 + length (walk mem tail (p + 16)) < 2 ^ 31"
      by simp_all
    note IH = "1.IH" [OF True refl thr sq "1.prems"(1)]
    show ?thesis
    proof (cases "sq \<noteq> lsq \<or> thr \<noteq> lthr")
      case same: False
      have "(case seq_loop ident mem tail (p + 16) sq thr (word_of_nat n + 1) s of
               Inl f \<Rightarrow> Inl f
             | Inr (a, b, c, s') \<Rightarrow> tp_timer ident a b (ucast c) s') =
            appends (map (emit ident) (runs (thr, sq) (Suc n) (walk mem tail (p + 16)))) s"
        using IH [OF n', of sq thr s] by (simp add: add.commute)
      with same True thr sq w show ?thesis
        by (simp add: seq_loop.simps [of _ _ _ p])
    next
      case differ: True
      have rec: "\<And>s'. (case seq_loop ident mem tail (p + 16) sq thr (word_of_nat 1) s' of
               Inl f \<Rightarrow> Inl f
             | Inr (a, b, c, s') \<Rightarrow> tp_timer ident a b (ucast c) s') =
            appends (map (emit ident) (runs (thr, sq) 1 (walk mem tail (p + 16)))) s'"
        using one by (rule IH)
      show ?thesis
      proof (cases "n = 0")
        case True
        with differ \<open>p + 8 \<le> tail\<close> thr sq w rec [of s] show ?thesis
          by (auto simp: seq_loop.simps [of _ _ _ p])
      next
        case False
        with n have nz: "(word_of_nat n :: 32 word) \<noteq> 0"
          by (simp add: count_nonzero)
        show ?thesis
        proof (cases "tp_timer ident lsq lthr (word_of_nat n) s")
          case (Inl f)
          with differ \<open>p + 8 \<le> tail\<close> thr sq w nz False show ?thesis
            by (auto simp: seq_loop.simps [of _ _ _ p] count_short)
        next
          case (Inr s')
          with differ \<open>p + 8 \<le> tail\<close> thr sq w nz False rec [of s'] show ?thesis
            by (auto simp: seq_loop.simps [of _ _ _ p] count_short)
        qed
      qed
    qed
  qed
qed

lemma runs_decode:
  "concat (map (\<lambda>(pr, k). replicate k pr) (runs cur n ps)) = replicate n cur @ ps"
  by (induction ps arbitrary: cur n) (auto simp: replicate_app_Cons_same)

text \<open>
  Claim C5. Let the first loop find the sentinel at \<open>p\<close> and the second loop stop at \<open>q\<close>, in a
  buffer that lies inside the memory, and let the walk read fewer than \<open>2^31\<close> pairs (the
  \<^verbatim>\<open>int\<close> counter does not overflow). Then \<^verbatim>\<open>tp_timer_data\<close> is \<^verbatim>\<open>cal_start\<close> followed by one call
  of \<^verbatim>\<open>tp_timer\<close> for each tuple of \<open>runs\<close> applied to the pairs walked from \<open>q + 7\<close>, in order,
  with the count passed through the \<^verbatim>\<open>short\<close> parameter; the run in progress at the end is
  emitted even if its count is zero. The tuples are a run-length encoding: expanding them
  gives the pairs back.
\<close>

theorem scanner_emits_runs:
  assumes "find_ff mem tail data = Inr (Some p)" and "skip_ff mem p = Inr q"
    and "tail \<le> length mem" and "length (walk mem tail (q + 8 - 1)) < 2 ^ 31"
  shows "tp_timer_data ident mem data tail s =
           appends (map (emit ident) (runs (0, 0) 0 (walk mem tail (q + 8 - 1)))) (cal_start s)
         \<and> concat (map (\<lambda>(pr, k). replicate k pr) (runs (0, 0) 0 (walk mem tail (q + 8 - 1))))
             = walk mem tail (q + 8 - 1)"
proof
  have "(case seq_loop ident mem tail (q + 8 - 1) 0 0 (word_of_nat 0) (cal_start s) of
            Inl f \<Rightarrow> Inl f
          | Inr (a, b, c, s') \<Rightarrow> tp_timer ident a b (ucast c) s') =
         appends (map (emit ident) (runs (0, 0) 0 (walk mem tail (q + 8 - 1)))) (cal_start s)"
    using assms(3,4) by (intro seq_loop_runs) simp_all
  with assms(1,2) show "tp_timer_data ident mem data tail s =
      appends (map (emit ident) (runs (0, 0) 0 (walk mem tail (q + 8 - 1)))) (cal_start s)"
    by (simp add: tp_timer_data_def)
  show "concat (map (\<lambda>(pr, k). replicate k pr) (runs (0, 0) 0 (walk mem tail (q + 8 - 1))))
      = walk mem tail (q + 8 - 1)"
    by (simp add: runs_decode)
qed

definition le32 :: "32 word \<Rightarrow> 8 word list" where
  "le32 w = [ucast w, ucast (drop_bit 8 w), ucast (drop_bit 16 w), ucast (drop_bit 24 w)]"

text \<open>The buffer of the specification's example: eight bytes \<open>0xFF\<close>, three groups of four
  words with thread number 1 and sequence number 5, and a last pair with thread number 1 and
  sequence number 6.\<close>

definition example_buffer :: "8 word list" where
  "example_buffer = replicate 8 0xFF @
     concat (replicate 3 (le32 1 @ le32 5 @ le32 0 @ le32 0)) @ le32 1 @ le32 6"

theorem scanner_emits_runs_witness:
  "find_ff example_buffer 64 0 = Inr (Some 0) \<and> skip_ff example_buffer 0 = Inr 1 \<and>
   64 \<le> length example_buffer \<and> length (walk example_buffer 64 (1 + 8 - 1)) < 2 ^ 31 \<and>
   walk example_buffer 64 (1 + 8 - 1) = [(1, 5), (1, 5), (1, 5), (1, 6)] \<and>
   tp_timer_data 3 example_buffer 0 64 (initial_state demo_clock) =
     appends [(3, 5, 1, 3), (3, 6, 1, 1)] (cal_start (initial_state demo_clock))"
proof -
  have f: "find_ff example_buffer 64 0 = Inr (Some 0)"
    by code_simp
  have k: "skip_ff example_buffer 0 = Inr 1"
    by code_simp
  have l: "64 \<le> length example_buffer"
    by code_simp
  have w: "walk example_buffer 64 (1 + 8 - 1) = [(1, 5), (1, 5), (1, 5), (1, 6)]"
    by code_simp
  then have n: "length (walk example_buffer 64 (1 + 8 - 1)) < 2 ^ 31"
    by simp
  from scanner_emits_runs [OF f k l n, of 3 "initial_state demo_clock"] w
  have "tp_timer_data 3 example_buffer 0 64 (initial_state demo_clock) =
     appends [(3, 5, 1, 3), (3, 6, 1, 1)] (cal_start (initial_state demo_clock))"
    by simp
  with f k l n w show ?thesis
    by simp
qed

text \<open>The same eight words laid out without padding, two words to a pair: the walk reads
  every other pair.\<close>

lemma dense_pairs_walk:
  "walk (replicate 8 0xFF @ concat (replicate 3 (le32 1 @ le32 5)) @ le32 1 @ le32 6) 40 8
     = [(1, 5), (1, 5)]"
  by code_simp

subsection \<open>Ordinals of the resident records\<close>

definition ordinals_ok :: "state \<Rightarrow> bool" where
  "ordinals_ok s \<longleftrightarrow>
     (tp_timer_space s = None \<longrightarrow> tp_timer_count s = 0) \<and>
     (\<forall>i. i < tp_timer_count s \<longrightarrow> ordinal (slots s i) = i)"

lemma ordinals_ok_tp_timer:
  assumes inv: "ordinals_ok s" and ok: "tp_timer ident sq thr rep s = Inr s'"
  shows "ordinals_ok s'"
proof (cases "TP_TIMER_SPACE \<le> tp_timer_count s")
  case True
  then have "tp_timer_count s \<noteq> 0"
    by (auto simp: TP_TIMER_SPACE_def)
  with inv have sp: "tp_timer_space s \<noteq> None"
    by (auto simp: ordinals_ok_def)
  from tp_timer_at_capacity [OF sp True, of ident sq thr rep] ok
  have "s' = s\<lparr>klog := klog s @ [Memory_space_exceeded]\<rparr>"
    by simp
  with inv show ?thesis
    by (simp add: ordinals_ok_def slots_def)
next
  case False
  then have room: "tp_timer_count s < TP_TIMER_SPACE"
    by (simp only: not_le)
  note step = tp_timer_Inr [OF ok room]
  show ?thesis
    unfolding ordinals_ok_def
  proof (intro conjI allI impI)
    assume "tp_timer_space s' = None"
    with step(2) show "tp_timer_count s' = 0"
      by simp
  next
    fix i assume "i < tp_timer_count s'"
    then have "i < tp_timer_count s + 1"
      by (simp add: step(1))
    then have "i \<le> tp_timer_count s"
      by (rule less_inc_imp_less_eq)
    then consider "i < tp_timer_count s" | "i = tp_timer_count s"
      by (auto simp: order_le_less)
    then show "ordinal (slots s' i) = i"
    proof cases
      case 1
      then have "slots s' i = slots s i"
        by (intro step(8)) simp
      with 1 inv show ?thesis
        by (simp add: ordinals_ok_def)
    next
      case 2
      with step(7) show ?thesis
        by simp
    qed
  qed
qed

lemma ordinals_ok_cal_start: "ordinals_ok s \<Longrightarrow> ordinals_ok (cal_start s)"
  by (simp add: ordinals_ok_def slots_def cal_start_def do_gettimeofday_def)

lemma ordinals_ok_seq_loop:
  "seq_loop ident mem tail x lsq lthr c s = Inr (a, b, c', s') \<Longrightarrow> ordinals_ok s
     \<Longrightarrow> ordinals_ok s'"
proof (induction ident mem tail x lsq lthr c s rule: seq_loop.induct)
  case (1 ident mem tail intdata lastSeq lastThreadnr count s)
  show ?case
  proof (cases "intdata + 8 \<le> tail")
    case False
    with "1.prems" show ?thesis
      by (simp add: seq_loop.simps [of _ _ _ intdata])
  next
    case True
    with "1.prems"(1) obtain sq thr where sq: "rd32 mem (intdata + 4) = Some sq"
      and thr: "rd32 mem intdata = Some thr"
      by (auto simp: seq_loop.simps [of _ _ _ intdata] split: option.splits)
    show ?thesis
    proof (cases "sq \<noteq> lastSeq \<or> thr \<noteq> lastThreadnr")
      case same: False
      with True sq thr "1.prems"(1)
      have "seq_loop ident mem tail (intdata + 16) sq thr (count + 1) s = Inr (a, b, c', s')"
        by (simp add: seq_loop.simps [of _ _ _ intdata])
      then show ?thesis
        using "1.prems"(2) by (rule "1.IH"(2) [OF True sq thr same])
    next
      case differ: True
      have "\<exists>s1. (if count \<noteq> 0 then tp_timer ident lastSeq lastThreadnr (ucast count) s
                 else Inr s) = Inr s1 \<and> ordinals_ok s1 \<and>
              seq_loop ident mem tail (intdata + 16) sq thr (0 + 1) s1 = Inr (a, b, c', s')"
      proof (cases "count = 0")
        case True
        with \<open>intdata + 8 \<le> tail\<close> sq thr differ "1.prems" show ?thesis
          by (simp add: seq_loop.simps [of _ _ _ intdata])
      next
        case False
        show ?thesis
        proof (cases "tp_timer ident lastSeq lastThreadnr (ucast count) s")
          case (Inl f)
          with False \<open>intdata + 8 \<le> tail\<close> sq thr differ "1.prems"(1) show ?thesis
            by (simp add: seq_loop.simps [of _ _ _ intdata])
        next
          case (Inr s1)
          with "1.prems"(2) have "ordinals_ok s1"
            by (simp add: ordinals_ok_tp_timer)
          with Inr False \<open>intdata + 8 \<le> tail\<close> sq thr differ "1.prems"(1) show ?thesis
            by (simp add: seq_loop.simps [of _ _ _ intdata])
        qed
      qed
      then obtain s1 where
        s1: "(if count \<noteq> 0 then tp_timer ident lastSeq lastThreadnr (ucast count) s
                 else Inr s) = Inr s1"
        and inv1: "ordinals_ok s1"
        and rec: "seq_loop ident mem tail (intdata + 16) sq thr (0 + 1) s1 = Inr (a, b, c', s')"
        by blast
      from rec inv1 show ?thesis
        by (rule "1.IH"(1) [OF True sq thr differ s1])
    qed
  qed
qed

lemma ordinals_ok_tp_timer_data:
  assumes "ordinals_ok s" and "tp_timer_data ident mem data tail s = Inr s'"
  shows "ordinals_ok s'"
proof (cases "find_ff mem tail data")
  case (Inl f)
  with assms(2) show ?thesis by (simp add: tp_timer_data_def)
next
  case (Inr r)
  show ?thesis
  proof (cases r)
    case None
    with Inr assms(2) have "s' = cal_start s"
      by (simp add: tp_timer_data_def)
    with assms(1) show ?thesis
      by (simp add: ordinals_ok_cal_start)
  next
    case (Some p)
    show ?thesis
    proof (cases "skip_ff mem p")
      case (Inl f)
      with Inr Some assms(2) show ?thesis by (simp add: tp_timer_data_def)
    next
      case q: (Inr q)
      show ?thesis
      proof (cases "seq_loop ident mem tail (q + 8 - 1) 0 0 0 (cal_start s)")
        case (Inl f)
        with Inr Some q assms(2) show ?thesis by (simp add: tp_timer_data_def)
      next
        case l: (Inr t)
        obtain a b c s2 where t: "t = (a, b, c, s2)"
          by (cases t) auto
        from Inr Some q l t assms(2) have last: "tp_timer ident a b (ucast c) s2 = Inr s'"
          by (simp add: tp_timer_data_def)
        from l t have "seq_loop ident mem tail (q + 8 - 1) 0 0 0 (cal_start s) = Inr (a, b, c, s2)"
          by simp
        then have "ordinals_ok s2"
          using ordinals_ok_cal_start [OF assms(1)] by (rule ordinals_ok_seq_loop)
        then show ?thesis
          using last by (rule ordinals_ok_tp_timer)
      qed
    qed
  qed
qed

text \<open>The states the program reaches. The module starts with its static initial values;
  \<^verbatim>\<open>tp_timer_init\<close> runs once, while the log is not allocated (at startup, or implicitly in
  \<^verbatim>\<open>tp_timer\<close>); \<^verbatim>\<open>tp_timer\<close>, \<^verbatim>\<open>tp_timer_data\<close> and \<^verbatim>\<open>tp_release\<close> run in any order.\<close>

inductive reachable :: "state \<Rightarrow> bool" where
  start: "reachable (initial_state clk)"
| init: "reachable s \<Longrightarrow> tp_timer_space s = None \<Longrightarrow> reachable (tp_timer_init s)"
| append: "reachable s \<Longrightarrow> tp_timer ident sq thr rep s = Inr s' \<Longrightarrow> reachable s'"
| scan: "reachable s \<Longrightarrow> tp_timer_data ident mem data tail s = Inr s' \<Longrightarrow> reachable s'"
| release: "reachable s \<Longrightarrow> tp_release s = Inr s' \<Longrightarrow> reachable s'"

lemma reachable_ordinals_ok: "reachable s \<Longrightarrow> ordinals_ok s"
proof (induction rule: reachable.induct)
  case (start clk)
  show ?case by (simp add: ordinals_ok_def initial_state_def)
next
  case (init s)
  then show ?case
    by (simp add: ordinals_ok_def tp_timer_init_def printk_def)
next
  case (append s ident sq thr rep s')
  then show ?case by (simp add: ordinals_ok_tp_timer)
next
  case (scan s ident mem data tail s')
  then show ?case by (simp add: ordinals_ok_tp_timer_data)
next
  case (release s s')
  then show ?case
    by (auto simp: ordinals_ok_def tp_release_def split: option.splits)
qed

text \<open>
  Claim C7. In every reachable state the record at each position \<open>i\<close> below the counter
  carries the ordinal \<open>i\<close>; so the ordinals of the resident records increase strictly with
  the position and have no gaps. Every completed call of \<^verbatim>\<open>tp_timer\<close> leads to a state with
  the same property.
\<close>

theorem resident_ordinals:
  assumes "reachable s" and "tp_timer_space s = Some sp"
  shows "(\<forall>i. i < tp_timer_count s \<longrightarrow> ordinal (sp i) = i) \<and>
         (\<forall>i j. i < j \<and> j < tp_timer_count s \<longrightarrow> ordinal (sp i) < ordinal (sp j)) \<and>
         (\<forall>i. i + 1 < tp_timer_count s \<and> i < i + 1 \<longrightarrow> ordinal (sp (i + 1)) = ordinal (sp i) + 1) \<and>
         (\<forall>ident sq thr rep s' sp'. tp_timer ident sq thr rep s = Inr s' \<and>
             tp_timer_space s' = Some sp' \<longrightarrow>
             (\<forall>i. i < tp_timer_count s' \<longrightarrow> ordinal (sp' i) = i))"
proof -
  have k: "\<And>t tp i. ordinals_ok t \<Longrightarrow> tp_timer_space t = Some tp \<Longrightarrow> i < tp_timer_count t
      \<Longrightarrow> ordinal (tp i) = i"
    by (simp add: ordinals_ok_def slots_def)
  from assms(1) have inv: "ordinals_ok s"
    by (rule reachable_ordinals_ok)
  note o = k [OF inv assms(2)]
  have "\<forall>i. i < tp_timer_count s \<longrightarrow> ordinal (sp i) = i"
    using o by simp
  moreover have "\<forall>i j. i < j \<and> j < tp_timer_count s \<longrightarrow> ordinal (sp i) < ordinal (sp j)"
  proof (intro allI impI)
    fix i j assume a: "i < j \<and> j < tp_timer_count s"
    then have "i < tp_timer_count s" by auto
    with a o [of i] o [of j] show "ordinal (sp i) < ordinal (sp j)" by simp
  qed
  moreover have "\<forall>i. i + 1 < tp_timer_count s \<and> i < i + 1 \<longrightarrow> ordinal (sp (i + 1)) = ordinal (sp i) + 1"
  proof (intro allI impI)
    fix i assume a: "i + 1 < tp_timer_count s \<and> i < i + 1"
    then have "i < tp_timer_count s" by auto
    with a o [of i] o [of "i + 1"] show "ordinal (sp (i + 1)) = ordinal (sp i) + 1" by simp
  qed
  moreover have "\<forall>ident sq thr rep s' sp'. tp_timer ident sq thr rep s = Inr s' \<and>
             tp_timer_space s' = Some sp' \<longrightarrow>
             (\<forall>i. i < tp_timer_count s' \<longrightarrow> ordinal (sp' i) = i)"
  proof (intro allI impI)
    fix ident sq thr rep s' sp' i
    assume a: "tp_timer ident sq thr rep s = Inr s' \<and> tp_timer_space s' = Some sp'"
      and i: "i < tp_timer_count s'"
    from a have "ordinals_ok s'"
      using inv by (intro ordinals_ok_tp_timer [of s ident sq thr rep s']) simp_all
    then show "ordinal (sp' i) = i"
      using a i by (intro k [of s']) simp_all
  qed
  ultimately show ?thesis
    by blast
qed

lemma reachable_appends: "reachable s \<Longrightarrow> appends cs s = Inr s' \<Longrightarrow> reachable s'"
proof (induction cs arbitrary: s)
  case Nil
  then show ?case by simp
next
  case (Cons c cs)
  obtain ident sq thr rep where c: "c = (ident, sq, thr, rep)"
    by (cases c) auto
  from Cons.prems(2) obtain s1 where s1: "tp_timer ident sq thr rep s = Inr s1"
    and rest: "appends cs s1 = Inr s'"
    by (auto simp: c split: sum.splits)
  from Cons.prems(1) s1 have "reachable s1"
    by (rule reachable.append)
  then show ?case
    using rest by (rule Cons.IH)
qed

theorem resident_ordinals_witness:
  "\<exists>s sp. appends demo_calls (initial_state demo_clock) = Inr s \<and>
     reachable s \<and> tp_timer_space s = Some sp \<and> tp_timer_count s = 3 \<and>
     ordinal (sp 0) = 0 \<and> ordinal (sp 1) = 1 \<and> ordinal (sp 2) = 2 \<and>
     ordinal (sp 0) < ordinal (sp 1) \<and> ordinal (sp 1) < ordinal (sp 2)"
proof -
  let ?s0 = "initial_state demo_clock"
  from demo_run obtain s where s: "appends demo_calls ?s0 = Inr s"
    by (cases "appends demo_calls ?s0") auto
  have r: "reachable s"
    using reachable.start s by (rule reachable_appends)
  have "holds s demo_calls"
    using _ _ s by (rule appends_holds) (simp_all add: initial_state_def demo_calls_def)
  then have c: "tp_timer_count s = 3" and "tp_timer_space s \<noteq> None"
    by (simp_all add: holds_def demo_calls_def)
  then obtain sp where sp: "tp_timer_space s = Some sp"
    by auto
  note o = resident_ordinals [OF r sp, THEN conjunct1, rule_format]
  have "ordinal (sp 0) = 0" "ordinal (sp 1) = 1" "ordinal (sp 2) = 2"
    using o [of 0] o [of 1] o [of 2] c by simp_all
  with s r sp c show ?thesis
    by simp
qed

subsection \<open>Reset of the log\<close>

text \<open>
  Claim C9. When the log is allocated, \<^verbatim>\<open>tp_release\<close> returns a state whose counter is zero
  and whose array holds the all-zero record in every slot, and in that state \<^verbatim>\<open>seq_show\<close>
  prints nothing at any position.
\<close>

theorem release_clears_log:
  assumes "tp_timer_space s \<noteq> None"
  shows "\<exists>s'. tp_release s = Inr s' \<and> tp_timer_count s' = 0 \<and>
           tp_timer_space s' = Some (\<lambda>_. zero_data) \<and> (\<forall>pos. seq_show s' pos = Inr None)"
  using assms by (auto simp: tp_release_def seq_show_def)

theorem release_clears_log_witness:
  "\<exists>s. appends demo_calls (initial_state demo_clock) = Inr s \<and> tp_timer_space s \<noteq> None \<and>
     tp_timer_count s = 3 \<and>
     (\<exists>s'. tp_release s = Inr s' \<and> tp_timer_count s' = 0 \<and>
           tp_timer_space s' = Some (\<lambda>_. zero_data) \<and> (\<forall>pos. seq_show s' pos = Inr None))"
proof -
  let ?s0 = "initial_state demo_clock"
  from demo_run obtain s where s: "appends demo_calls ?s0 = Inr s"
    by (cases "appends demo_calls ?s0") auto
  have "holds s demo_calls"
    using _ _ s by (rule appends_holds) (simp_all add: initial_state_def demo_calls_def)
  then have c: "tp_timer_count s = 3" and sp: "tp_timer_space s \<noteq> None"
    by (simp_all add: holds_def demo_calls_def)
  from release_clears_log [OF sp] s c sp show ?thesis
    by blast
qed

subsection \<open>The sentinel search reads behind the end of the buffer\<close>

text \<open>When nothing readable follows the buffer, the search for the sentinel never takes
  the return for malformed data: it finds the sentinel or it reads out of bounds.\<close>

lemma find_ff_without_slack:
  "length mem = tail \<Longrightarrow> find_ff mem tail data \<noteq> Inr None"
proof (induction mem tail data rule: find_ff.induct)
  case (1 mem tail data)
  show ?case
  proof (cases "ff_pair mem data")
    case (Inl f)
    then show ?thesis by (simp add: find_ff.simps [of _ _ data])
  next
    case (Inr b)
    show ?thesis
    proof (cases b)
      case True
      with Inr show ?thesis by (simp add: find_ff.simps [of _ _ data])
    next
      case False
      with Inr have "data + 4 \<le> length mem"
        by (auto simp: ff_pair_def rd32_def split: option.splits if_splits)
      with "1.prems" have nt: "\<not> tail < data + 1"
        by simp
      from Inr False have "ff_pair mem data = Inr False"
        by simp
      then have "find_ff mem tail (data + 1) \<noteq> Inr None"
        using refl nt "1.prems" by (rule "1.IH")
      with Inr False nt show ?thesis
        by (simp add: find_ff.simps [of _ _ data])
    qed
  qed
qed

text \<open>
  Claim C10. There are inputs on which the first loop reads the two words at a position at
  or behind \<open>tail\<close>. With four zero bytes and nothing behind them, the loop reads out of bounds
  (the \<open>None\<close> branch of the word read). With eight bytes \<open>0xFF\<close> behind the same four bytes, the
  loop goes on to position \<open>tail\<close>, reads both words there and reports the sentinel at \<open>tail\<close>.
\<close>

theorem search_reads_behind_tail:
  "(\<exists>mem data tail. data \<le> tail \<and> tail = length mem \<and>
       find_ff mem tail data = Inl BufferOutOfBounds) \<and>
   (\<exists>mem data tail p. data \<le> tail \<and> tail \<le> length mem \<and>
       find_ff mem tail data = Inr (Some p) \<and> tail \<le> p \<and> ff_pair mem tail = Inr True)"
proof
  have "find_ff [0, 0, 0, 0] 4 0 = Inl BufferOutOfBounds"
    by code_simp
  then have "0 \<le> (4 :: nat) \<and> 4 = length [0, 0, 0, 0 :: 8 word] \<and>
      find_ff [0, 0, 0, 0] 4 0 = Inl BufferOutOfBounds"
    by simp
  then show "\<exists>mem data tail. data \<le> tail \<and> tail = length mem \<and>
       find_ff mem tail data = Inl BufferOutOfBounds"
    by blast
next
  let ?mem = "[0, 0, 0, 0] @ replicate 8 (0xFF :: 8 word)"
  have "find_ff ?mem 4 0 = Inr (Some 4)" and "ff_pair ?mem 4 = Inr True"
    by code_simp+
  then have "0 \<le> (4 :: nat) \<and> 4 \<le> length ?mem \<and> find_ff ?mem 4 0 = Inr (Some 4) \<and>
      (4 :: nat) \<le> 4 \<and> ff_pair ?mem 4 = Inr True"
    by simp
  then show "\<exists>mem data tail p. data \<le> tail \<and> tail \<le> length mem \<and>
       find_ff mem tail data = Inr (Some p) \<and> tail \<le> p \<and> ff_pair mem tail = Inr True"
    by blast
qed

subsection \<open>A sentinel that extends behind the end of the buffer\<close>

text \<open>A buffer for which the first loop takes the return for malformed data is not logged:
  only \<^verbatim>\<open>cal_start\<close> has run.\<close>

lemma tp_timer_data_malformed:
  "find_ff mem tail data = Inr None \<Longrightarrow> tp_timer_data ident mem data tail s = Inr (cal_start s)"
  by (simp add: tp_timer_data_def)

lemma cal_start_log:
  "tp_timer_space (cal_start s) = tp_timer_space s \<and> tp_timer_count (cal_start s) = tp_timer_count s"
  by (simp add: cal_start_def do_gettimeofday_def)

text \<open>
  Claim C6, at two failing inputs. In the first the buffer is four bytes \<open>0xFF\<close> and the memory
  behind it holds four more bytes \<open>0xFF\<close> and a zero byte: the scan takes the bytes behind
  \<open>tail\<close> for the second word of the sentinel. In the second the buffer is four zero bytes and
  the memory behind it holds eight bytes \<open>0xFF\<close> and a zero byte: the scan goes on to position
  \<open>tail\<close> and finds the sentinel there, outside the buffer. Neither buffer holds a two-word
  sentinel (the search in the buffer alone finds none), and each time the call logs a record,
  with sequence number, thread number and count zero.
\<close>

theorem malformed_buffer_is_logged:
  "find_ff (take 4 (replicate 8 0xFF @ [0])) 4 0 = Inl BufferOutOfBounds \<and>
   (\<exists>s sp. tp_timer_data 3 (replicate 8 0xFF @ [0]) 0 4 (initial_state demo_clock) = Inr s \<and>
      tp_timer_count s = 1 \<and> tp_timer_space s = Some sp \<and>
      probe (sp 0) = 3 \<and> seq (sp 0) = 0 \<and> threadnr (sp 0) = 0 \<and> timesrepeated (sp 0) = 0) \<and>
   find_ff (take 4 ([0, 0, 0, 0] @ replicate 8 0xFF @ [0])) 4 0 = Inl BufferOutOfBounds \<and>
   (\<exists>s sp. tp_timer_data 3 ([0, 0, 0, 0] @ replicate 8 0xFF @ [0]) 0 4 (initial_state demo_clock)
        = Inr s \<and>
      tp_timer_count s = 1 \<and> tp_timer_space s = Some sp \<and>
      probe (sp 0) = 3 \<and> seq (sp 0) = 0 \<and> threadnr (sp 0) = 0 \<and> timesrepeated (sp 0) = 0)"
proof -
  let ?r1 = "tp_timer_data 3 (replicate 8 0xFF @ [0]) 0 4 (initial_state demo_clock)"
  let ?r2 = "tp_timer_data 3 ([0, 0, 0, 0] @ replicate 8 0xFF @ [0]) 0 4 (initial_state demo_clock)"
  have "case ?r1 of Inl f \<Rightarrow> False | Inr s \<Rightarrow>
      tp_timer_count s = 1 \<and>
      (case tp_timer_space s of None \<Rightarrow> False | Some sp \<Rightarrow>
         probe (sp 0) = 3 \<and> seq (sp 0) = 0 \<and> threadnr (sp 0) = 0 \<and> timesrepeated (sp 0) = 0)"
    by code_simp
  then have a: "\<exists>s sp. ?r1 = Inr s \<and>
      tp_timer_count s = 1 \<and> tp_timer_space s = Some sp \<and>
      probe (sp 0) = 3 \<and> seq (sp 0) = 0 \<and> threadnr (sp 0) = 0 \<and> timesrepeated (sp 0) = 0"
    by (auto split: sum.splits option.splits)
  have "case ?r2 of Inl f \<Rightarrow> False | Inr s \<Rightarrow>
      tp_timer_count s = 1 \<and>
      (case tp_timer_space s of None \<Rightarrow> False | Some sp \<Rightarrow>
         probe (sp 0) = 3 \<and> seq (sp 0) = 0 \<and> threadnr (sp 0) = 0 \<and> timesrepeated (sp 0) = 0)"
    by code_simp
  then have b: "\<exists>s sp. ?r2 = Inr s \<and>
      tp_timer_count s = 1 \<and> tp_timer_space s = Some sp \<and>
      probe (sp 0) = 3 \<and> seq (sp 0) = 0 \<and> threadnr (sp 0) = 0 \<and> timesrepeated (sp 0) = 0"
    by (auto split: sum.splits option.splits)
  have c: "find_ff (take 4 (replicate 8 0xFF @ [0])) 4 0 = Inl BufferOutOfBounds"
    and d: "find_ff (take 4 ([0, 0, 0, 0] @ replicate 8 0xFF @ [0])) 4 0 = Inl BufferOutOfBounds"
    by code_simp+
  from a b c d show ?thesis
    by blast
qed

subsection \<open>The calibration converges once\<close>

definition converged :: "state \<Rightarrow> bool" where
  "converged s \<longleftrightarrow> int TP_TIMER_CAL \<le> cal_count s"

datatype cal_op = Cal_start | Cal_stop "64 word"

fun cal_step :: "cal_op \<Rightarrow> state \<Rightarrow> fault + state" where
  "cal_step Cal_start s = Inr (cal_start s)"
| "cal_step (Cal_stop usec) s = cal_stop usec s"

fun cal_run :: "cal_op list \<Rightarrow> state \<Rightarrow> fault + state" where
  "cal_run [] s = Inr s"
| "cal_run (x # xs) s = (case cal_step x s of Inl f \<Rightarrow> Inl f | Inr s' \<Rightarrow> cal_run xs s')"

fun samples :: "cal_op list \<Rightarrow> nat" where
  "samples [] = 0"
| "samples (Cal_start # xs) = samples xs"
| "samples (Cal_stop usec # xs) = Suc (samples xs)"

lemma cal_run_append:
  "cal_run (xs @ ys) s = (case cal_run xs s of Inl f \<Rightarrow> Inl f | Inr s' \<Rightarrow> cal_run ys s')"
  by (induction xs arbitrary: s) (auto split: sum.splits)

lemma samples_append: "samples (xs @ ys) = samples xs + samples ys"
  by (induction xs rule: samples.induct) auto

lemma converged_fixed:
  assumes "converged s"
  shows "cal_stop usec s = Inr s" and "cal_start s = s"
  using assms by (simp_all add: converged_def cal_stop_def cal_start_def)

lemma converged_run: "converged s \<Longrightarrow> cal_run xs s = Inr s"
proof (induction xs)
  case Nil
  show ?case by simp
next
  case (Cons x xs)
  then show ?case
    by (cases x) (simp_all add: converged_fixed)
qed

lemma cal_stop_count:
  assumes "cal_stop usec s = Inr s'" and "\<not> converged s"
  shows "cal_count s' = (if cal_count s + 1 = int TP_TIMER_CAL then int TP_TIMER_CAL + 1
                         else cal_count s + 1)"
proof (cases "cal_count s + 1 = int TP_TIMER_CAL")
  case True
  with assms show ?thesis
    by (auto simp: converged_def cal_stop_def Let_def cal_print_def printk_def split_beta
        split: if_splits sum.splits)
next
  case False
  with assms show ?thesis
    by (auto simp: converged_def cal_stop_def Let_def split: if_splits)
qed

lemma cal_start_count: "cal_count (cal_start s) = cal_count s"
  by (simp add: cal_start_def do_gettimeofday_def)

lemma cal_run_count:
  assumes "cal_count s0 = 0" and "cal_run xs s0 = Inr s"
  shows "cal_count s = (if samples xs < TP_TIMER_CAL then int (samples xs)
                        else int TP_TIMER_CAL + 1)"
  using assms(2)
proof (induction xs arbitrary: s rule: rev_induct)
  case Nil
  with assms(1) show ?case by (simp add: TP_TIMER_CAL_def)
next
  case (snoc x xs)
  from snoc.prems obtain s1 where s1: "cal_run xs s0 = Inr s1" and last: "cal_step x s1 = Inr s"
    by (auto simp: cal_run_append split: sum.splits)
  note IH = snoc.IH [OF s1]
  show ?case
  proof (cases x)
    case Cal_start
    with last IH show ?thesis
      by (auto simp: samples_append cal_start_count)
  next
    case (Cal_stop usec)
    show ?thesis
    proof (cases "samples xs < TP_TIMER_CAL")
      case True
      with IH have c: "cal_count s1 = int (samples xs)" and "\<not> converged s1"
        by (simp_all add: converged_def)
      with last Cal_stop have "cal_count s = (if cal_count s1 + 1 = int TP_TIMER_CAL
          then int TP_TIMER_CAL + 1 else cal_count s1 + 1)"
        by (intro cal_stop_count [of usec]) simp_all
      with c True Cal_stop show ?thesis
        by (auto simp: samples_append)
    next
      case False
      with IH have "converged s1" and "cal_count s1 = int TP_TIMER_CAL + 1"
        by (simp_all add: converged_def)
      with last Cal_stop False show ?thesis
        by (auto simp: samples_append converged_fixed)
    qed
  qed
qed

text \<open>The number of steps of a run that lead from a collecting state to a converged one.\<close>

fun transitions :: "cal_op list \<Rightarrow> state \<Rightarrow> nat" where
  "transitions [] s = 0"
| "transitions (x # xs) s =
     (case cal_step x s of
        Inl f \<Rightarrow> 0
      | Inr s' \<Rightarrow> (if \<not> converged s \<and> converged s' then 1 else 0) + transitions xs s')"

lemma transitions_converged: "converged s \<Longrightarrow> transitions xs s = 0"
proof (induction xs)
  case Nil
  show ?case by simp
next
  case (Cons x xs)
  then show ?case
    by (cases x) (simp_all add: converged_fixed)
qed

lemma transitions_collecting:
  assumes "cal_run xs s = Inr s'" and "0 \<le> cal_count s" and "\<not> converged s"
  shows "transitions xs s = (if int TP_TIMER_CAL \<le> cal_count s + int (samples xs) then 1 else 0)"
  using assms
proof (induction xs arbitrary: s)
  case Nil
  then show ?case by (simp add: converged_def)
next
  case (Cons x xs)
  show ?case
  proof (cases x)
    case Cal_start
    with Cons.prems have "cal_run xs (cal_start s) = Inr s'"
      and "0 \<le> cal_count (cal_start s)" and n: "\<not> converged (cal_start s)"
      by (simp_all add: cal_start_count converged_def)
    then have "transitions xs (cal_start s) =
        (if int TP_TIMER_CAL \<le> cal_count (cal_start s) + int (samples xs) then 1 else 0)"
      by (rule Cons.IH)
    with Cal_start n show ?thesis
      by (simp add: cal_start_count)
  next
    case (Cal_stop usec)
    with Cons.prems(1) obtain s1 where s1: "cal_stop usec s = Inr s1" and rest: "cal_run xs s1 = Inr s'"
      by (auto split: sum.splits)
    note c = cal_stop_count [OF s1 Cons.prems(3)]
    show ?thesis
    proof (cases "cal_count s + 1 = int TP_TIMER_CAL")
      case True
      with c have conv: "converged s1"
        by (simp add: converged_def)
      with Cal_stop s1 Cons.prems(3) True show ?thesis
        by (simp add: transitions_converged)
    next
      case False
      with c Cons.prems(2,3) have "0 \<le> cal_count s1" and n: "\<not> converged s1"
        and e: "cal_count s1 = cal_count s + 1"
        by (simp_all add: converged_def)
      with rest have "transitions xs s1 =
          (if int TP_TIMER_CAL \<le> cal_count s1 + int (samples xs) then 1 else 0)"
        by (intro Cons.IH)
      with Cal_stop s1 n e show ?thesis
        by simp
    qed
  qed
qed

text \<open>
  Runs that complete. Run any sequence of calls of \<^verbatim>\<open>cal_start\<close> and \<^verbatim>\<open>cal_stop\<close> from a state
  with \<^verbatim>\<open>cal_count = 0\<close>, and let no call end in the out-of-bounds access of the sort. The run
  has one step from a collecting state to a converged one (\<^verbatim>\<open>cal_count >= TP_TIMER_CAL\<close>) if it
  holds at least \<open>TP_TIMER_CAL\<close> calls of \<^verbatim>\<open>cal_stop\<close>, and none otherwise. After each prefix of
  the run the calibration is converged if and only if the prefix holds at least \<open>TP_TIMER_CAL\<close>
  calls of \<^verbatim>\<open>cal_stop\<close>: the step is the call that feeds sample number \<open>TP_TIMER_CAL\<close>. In a
  converged state every call of \<^verbatim>\<open>cal_start\<close> and of \<^verbatim>\<open>cal_stop\<close> returns the state as it is.
  The call that feeds sample number \<open>TP_TIMER_CAL\<close> is the one that sorts the window; a run in
  which the sort leaves the window is evaluated below.
\<close>

lemma calibration_converges_once:
  assumes "cal_count s0 = 0" and "cal_run xs s0 = Inr s"
  shows "transitions xs s0 = (if TP_TIMER_CAL \<le> samples xs then 1 else 0) \<and>
         (\<forall>k. k \<le> length xs \<longrightarrow>
            (\<exists>sk. cal_run (take k xs) s0 = Inr sk \<and>
               (converged sk \<longleftrightarrow> TP_TIMER_CAL \<le> samples (take k xs)))) \<and>
         (\<forall>t usec. converged t \<longrightarrow> cal_stop usec t = Inr t \<and> cal_start t = t)"
proof (intro conjI allI impI)
  from assms have "\<not> converged s0"
    by (simp add: converged_def TP_TIMER_CAL_def)
  with assms have "transitions xs s0 =
      (if int TP_TIMER_CAL \<le> cal_count s0 + int (samples xs) then 1 else 0)"
    by (intro transitions_collecting) simp_all
  with assms(1) show "transitions xs s0 = (if TP_TIMER_CAL \<le> samples xs then 1 else 0)"
    by simp
next
  fix k assume "k \<le> length xs"
  have "cal_run (take k xs @ drop k xs) s0 = Inr s"
    using assms(2) by simp
  then obtain sk where sk: "cal_run (take k xs) s0 = Inr sk"
    unfolding cal_run_append by (auto split: sum.splits)
  from cal_run_count [OF assms(1) sk]
  have "converged sk \<longleftrightarrow> TP_TIMER_CAL \<le> samples (take k xs)"
    by (auto simp: converged_def)
  with sk show "\<exists>sk. cal_run (take k xs) s0 = Inr sk \<and>
               (converged sk \<longleftrightarrow> TP_TIMER_CAL \<le> samples (take k xs))"
    by blast
next
  fix t usec assume "converged t"
  then show "cal_stop usec t = Inr t" and "cal_start t = t"
    by (simp_all add: converged_fixed)
qed

subsection \<open>Windows that the calibration sorts without a fault\<close>

lemma sint_index: "n < 2 ^ 31 \<Longrightarrow> sint (word_of_nat n :: 32 word) = int n"
proof -
  assume "n < 2 ^ 31"
  then have "int n < 2 ^ 31"
    by (metis of_nat_less_iff of_nat_numeral of_nat_power)
  moreover have "- (2 ^ 31) \<le> int n"
    by (rule order_trans [of _ 0]) simp_all
  ultimately have "signed_take_bit 31 (int n) = int n"
    by (intro signed_take_bit_int_eq_self) simp_all
  then show ?thesis
    by (simp only: signed_of_nat) simp
qed

lemma scast_of_nat_index: "n < 2 ^ 31 \<Longrightarrow> (scast (word_of_nat n :: 32 word) :: 64 word) = word_of_nat n"
  by (simp only: scast_eq sint_index) simp

lemma ucast_of_nat_index: "(ucast (word_of_nat n :: 64 word) :: 32 word) = word_of_nat n"
  by (simp add: unsigned_of_nat take_bit_word_eq_self of_nat_take_bit)

lemma a_read_index:
  "i < length a \<Longrightarrow> i < 100 \<Longrightarrow> a_read a (word_of_nat i) = Some (a ! i)"
  by (simp add: a_read_iff unat_of_nat_index TP_TIMER_CAL_def)

lemma scan_up_climb:
  assumes "t < length a" and "t < 100" and "i \<le> t"
    and "\<forall>k. i \<le> k \<and> k < t \<longrightarrow> a ! k < v" and "\<not> a ! t < v"
  shows "scan_up a v (word_of_nat i - 1) = Inr (word_of_nat t)"
  using assms(3,4)
proof (induction "t - i" arbitrary: i)
  case 0
  then have "i = t" by simp
  with assms(1,2,5) show ?case
    by (simp add: scan_up.simps [of a v "word_of_nat t - 1"] a_read_index)
next
  case (Suc d)
  then have lt: "i < t" by simp
  with assms(1,2) have rd: "a_read a (word_of_nat i) = Some (a ! i)"
    by (simp add: a_read_index)
  from Suc.prems lt have less: "a ! i < v"
    by simp
  have "scan_up a v (word_of_nat (Suc i) - 1) = Inr (word_of_nat t)"
    using Suc.hyps(2) Suc.prems lt by (intro Suc.hyps(1)) auto
  then have "scan_up a v (word_of_nat i) = Inr (word_of_nat t)"
    by simp
  with rd less show ?case
    by (simp add: scan_up.simps [of a v "word_of_nat i - 1"])
qed

text \<open>A window in strictly ascending order is sorted without a fault and stays as it is.\<close>

lemma cal_sort_ascending:
  assumes "n < length a" and "n < 100" and "\<forall>i j. i < j \<and> j \<le> n \<longrightarrow> a ! i < a ! j"
  shows "cal_sort a 0 (word_of_nat n) = Inr a"
  using assms
proof (induction n)
  case 0
  show ?case
    by (simp add: cal_sort.simps [of a 0 0])
next
  case (Suc k)
  let ?v = "a ! Suc k"
  have s: "sint (word_of_nat (Suc k) :: 32 word) = int (Suc k)"
    using Suc.prems(2) by (intro sint_index) simp
  have c: "(scast (word_of_nat (Suc k) :: 32 word) :: 64 word) = word_of_nat (Suc k)"
    using Suc.prems(2) by (intro scast_of_nat_index) simp
  have rd: "a_read a (word_of_nat (Suc k)) = Some ?v"
    using Suc.prems(1,2) by (rule a_read_index)
  have "scan_up a ?v (word_of_nat 0 - 1) = Inr (word_of_nat (Suc k))"
    using Suc.prems by (intro scan_up_climb) auto
  then have up: "scan_up a ?v (- 1) = Inr (word_of_nat (Suc k))"
    by simp
  have rdk: "a_read a (word_of_nat k) = Some (a ! k)"
    using Suc.prems(1,2) by (intro a_read_index) simp_all
  have "a ! k < ?v"
    using Suc.prems(3) by simp
  then have "\<not> ?v < a ! k"
    by simp
  moreover have "(word_of_nat (Suc k) :: 64 word) - 1 = word_of_nat k"
    by simp
  ultimately have down: "scan_down a ?v (word_of_nat (Suc k)) = Inr (word_of_nat k)"
    using rdk by (simp add: scan_down.simps [of a ?v "word_of_nat (Suc k)"] del: of_nat_Suc)
  have le: "(word_of_nat k :: 64 word) \<le> word_of_nat (Suc k)"
    using Suc.prems(2) by (simp add: word_le_nat_alt unat_of_nat_index del: of_nat_Suc)
  have pl: "partition_loop a ?v (- 1) (word_of_nat (Suc k)) = Inr (a, word_of_nat (Suc k), word_of_nat k)"
    using up down le by (simp add: partition_loop.simps [of a ?v "- 1"] del: of_nat_Suc)
  have sw: "a_swap a (word_of_nat (Suc k)) (word_of_nat (Suc k)) = a"
    by (simp add: a_swap_def)
  have left: "cal_sort a 0 (word_of_nat k) = Inr a"
    using Suc.prems by (intro Suc.IH) auto
  have s2: "sint (word_of_nat (Suc (Suc k)) :: 32 word) = int (Suc (Suc k))"
    using Suc.prems(2) by (intro sint_index) simp
  have right: "cal_sort a (word_of_nat (Suc (Suc k))) (word_of_nat (Suc k)) = Inr a"
    by (simp add: cal_sort.simps [of a "word_of_nat (Suc (Suc k))"] s s2 del: of_nat_Suc)
  have u1: "(ucast (word_of_nat k :: 64 word) :: 32 word) = word_of_nat k"
    by (rule ucast_of_nat_index)
  have u2: "(ucast (word_of_nat (Suc k) + 1 :: 64 word) :: 32 word) = word_of_nat (Suc (Suc k))"
    using ucast_of_nat_index [of "Suc (Suc k)"] by (simp add: add.commute)
  show ?case
    unfolding cal_sort.simps [of a 0 "word_of_nat (Suc k)"] c
    using s rd pl sw left right u1 u2 by (simp del: of_nat_Suc)
qed

lemma fold_mean:
  "fold (\<lambda>i (mean, count). (mean + a ! i, count + 1)) xs (m, c) =
     (m + sum_list (map ((!) a) xs), c + int (length xs))"
  by (induction xs arbitrary: m c) (simp_all add: add.assoc)

text \<open>The call of \<^verbatim>\<open>cal_stop\<close> that fills the window, when the sort returns: the window is
  replaced by the result of the sort, and \<^verbatim>\<open>cal_mean\<close> becomes the sum of the elements at the
  positions 5 to 94 (added to the old \<^verbatim>\<open>cal_mean\<close>, zero in a run of the program), divided
  by their number 90.\<close>

lemma cal_stop_fills_window:
  assumes "cal_count s = 99" and "length (cal_list s) = 100"
    and "cal_sort ((cal_list s)[99 := usec - cal_usec s]) 0 99 = Inr a" and "length a = 100"
  shows "cal_stop usec s =
     Inr (s\<lparr>cal_list := a, cal_count := 101,
            cal_mean := (cal_mean s + sum_list (map ((!) a) [trim_lo..<trim_hi])) div
               word_of_nat (trim_hi - trim_lo),
            klog := klog s @ [Cal_list a,
              Calibration_finished 5 ((cal_mean s + sum_list (map ((!) a) [trim_lo..<trim_hi])) div
               word_of_nat (trim_hi - trim_lo))]\<rparr>)"
proof -
  have "\<not> length a < trim_hi"
    using assms(4) by (simp add: trim_hi_def TP_TIMER_CAL_def TP_TIMER_TRIMMEDMEAN_def)
  with assms show ?thesis
    by (simp add: cal_stop_def TP_TIMER_CAL_def TP_TIMER_TRIMMEDMEAN_def
        Let_def cal_print_def printk_def fold_mean)
qed

lemma cal_stop_collects:
  assumes "0 \<le> cal_count s" and "cal_count s < 99" and "length (cal_list s) = 100"
  shows "cal_stop usec s =
     Inr (s\<lparr>cal_list := (cal_list s)[nat (cal_count s) := usec - cal_usec s],
            cal_count := cal_count s + 1\<rparr>)"
  using assms by (simp add: cal_stop_def TP_TIMER_CAL_def Let_def)

lemma collect_run:
  assumes "cal_count s0 = 0" and "length (cal_list s0) = 100" and "length us < 100"
  shows "cal_run (map Cal_stop us) s0 =
     Inr (s0\<lparr>cal_list := map (\<lambda>u. u - cal_usec s0) us @ drop (length us) (cal_list s0),
             cal_count := int (length us)\<rparr>)"
  using assms(3)
proof (induction us rule: rev_induct)
  case Nil
  with assms(1) show ?case by simp
next
  case (snoc u us)
  let ?l = "map (\<lambda>u. u - cal_usec s0) us @ drop (length us) (cal_list s0)"
  let ?s1 = "s0\<lparr>cal_list := ?l, cal_count := int (length us)\<rparr>"
  from snoc have run: "cal_run (map Cal_stop us) s0 = Inr ?s1" and lt: "length us < 99"
    by simp_all
  have len: "length ?l = 100"
    using assms(2) lt by simp
  have "cal_stop u ?s1 = Inr (?s1\<lparr>cal_list := (cal_list ?s1)[nat (cal_count ?s1) := u - cal_usec ?s1],
            cal_count := cal_count ?s1 + 1\<rparr>)"
    using lt len by (intro cal_stop_collects) simp_all
  moreover have "?l[length us := u - cal_usec s0] =
      map (\<lambda>u. u - cal_usec s0) (us @ [u]) @ drop (length (us @ [u])) (cal_list s0)"
    using assms(2) lt
    by (simp add: list_update_append upd_conv_take_nth_drop Cons_nth_drop_Suc)
  ultimately show ?case
    using run by (simp add: cal_run_append)
qed

text \<open>A hundred samples that arrive in strictly ascending order, fed to a fresh calibration:
  the sort returns, the window holds the samples, and \<^verbatim>\<open>cal_mean\<close> is their trimmed mean.\<close>

lemma ascending_window:
  assumes len: "length us = 100" and asc: "\<forall>i j. i < j \<and> j < 100 \<longrightarrow> us ! i < us ! j"
  shows "cal_run (map Cal_stop us) (initial_state clk) =
     Inr ((initial_state clk)\<lparr>cal_list := us, cal_count := 101,
            cal_mean := sum_list (map ((!) us) [trim_lo..<trim_hi]) div
               word_of_nat (trim_hi - trim_lo),
            klog := [Cal_list us,
              Calibration_finished 5 (sum_list (map ((!) us) [trim_lo..<trim_hi]) div
               word_of_nat (trim_hi - trim_lo))]\<rparr>)"
proof -
  let ?s0 = "initial_state clk"
  from len have ne: "us \<noteq> []"
    by auto
  then have split: "us = butlast us @ [last us]"
    by simp
  let ?s1 = "?s0\<lparr>cal_list := map (\<lambda>u. u - cal_usec ?s0) (butlast us) @
      drop (length (butlast us)) (cal_list ?s0), cal_count := int (length (butlast us))\<rparr>"
  have first: "cal_run (map Cal_stop (butlast us)) ?s0 = Inr ?s1"
    using len by (intro collect_run) (simp_all add: initial_state_def TP_TIMER_CAL_def)
  have l1: "cal_list ?s1 = butlast us @ [0]"
    using len by (simp add: initial_state_def TP_TIMER_CAL_def)
  have u1: "cal_usec ?s1 = 0"
    by (simp add: initial_state_def)
  have "(cal_list ?s1)[99 := last us - cal_usec ?s1] = (butlast us @ [0])[99 := last us]"
    unfolding l1 u1 by simp
  also have "\<dots> = butlast us @ [last us]"
    using len by (simp add: list_update_append)
  also have "\<dots> = us"
    using split by simp
  finally have upd: "(cal_list ?s1)[99 := last us - cal_usec ?s1] = us" .
  have "cal_sort us 0 (word_of_nat 99) = Inr us"
    using len asc by (intro cal_sort_ascending) auto
  then have sorted: "cal_sort ((cal_list ?s1)[99 := last us - cal_usec ?s1]) 0 99 = Inr us"
    unfolding upd by simp
  have "cal_stop (last us) ?s1 =
     Inr (?s1\<lparr>cal_list := us, cal_count := 101,
            cal_mean := (cal_mean ?s1 + sum_list (map ((!) us) [trim_lo..<trim_hi])) div
               word_of_nat (trim_hi - trim_lo),
            klog := klog ?s1 @ [Cal_list us,
              Calibration_finished 5 ((cal_mean ?s1 + sum_list (map ((!) us) [trim_lo..<trim_hi])) div
               word_of_nat (trim_hi - trim_lo))]\<rparr>)"
  proof (rule cal_stop_fills_window [OF _ _ sorted len])
    show "cal_count ?s1 = 99"
      using len by simp
    show "length (cal_list ?s1) = 100"
      unfolding l1 using len by simp
  qed
  then have last: "cal_stop (last us) ?s1 =
     Inr (?s0\<lparr>cal_list := us, cal_count := 101,
            cal_mean := sum_list (map ((!) us) [trim_lo..<trim_hi]) div
               word_of_nat (trim_hi - trim_lo),
            klog := [Cal_list us,
              Calibration_finished 5 (sum_list (map ((!) us) [trim_lo..<trim_hi]) div
               word_of_nat (trim_hi - trim_lo))]\<rparr>)"
    by (simp add: initial_state_def)
  have "cal_run (map Cal_stop us) ?s0 = cal_run (map Cal_stop (butlast us) @ [Cal_stop (last us)]) ?s0"
    using split by (metis list.simps(8,9) map_append)
  also have "\<dots> = cal_stop (last us) ?s1"
    unfolding cal_run_append first by (simp split: sum.splits)
  finally show ?thesis
    using last by simp
qed

text \<open>The sample set of the specification's test: 10, 20, ..., 1000. Ninety samples remain
  after the five lowest and the five highest are dropped; their mean is 505.\<close>

definition known_samples :: "64 word list" where
  "known_samples = map (\<lambda>k. 10 * word_of_nat k) [1..<101]"

lemma known_samples_mean:
  "\<exists>s. cal_run (map Cal_stop known_samples) (initial_state clk) = Inr s \<and>
     cal_list s = known_samples \<and> cal_mean s = 505"
proof -
  have len: "length known_samples = 100"
    by (simp add: known_samples_def)
  have asc: "\<forall>i j. i < j \<and> j < 100 \<longrightarrow> known_samples ! i < known_samples ! j"
  proof (intro allI impI)
    fix i j :: nat assume a: "i < j \<and> j < 100"
    have e: "\<And>k. k < 100 \<Longrightarrow> known_samples ! k = word_of_nat (10 * (1 + k))"
      by (simp add: known_samples_def)
    have "(word_of_nat (10 * (1 + i)) :: 64 word) < word_of_nat (10 * (1 + j))"
      using a by (simp add: word_less_nat_alt unat_of_nat_index del: of_nat_mult of_nat_add)
    with a e [of i] e [of j] show "known_samples ! i < known_samples ! j"
      by simp
  qed
  have "sum_list (map ((!) known_samples) [trim_lo..<trim_hi]) div word_of_nat (trim_hi - trim_lo)
      = (505 :: 64 word)"
    by code_simp
  with ascending_window [OF len asc, of clk] show ?thesis
    by simp
qed

text \<open>A run that feeds the samples 10, 20, ..., 1000 and then calls \<^verbatim>\<open>cal_start\<close> and
  \<^verbatim>\<open>cal_stop\<close> once more.\<close>

definition window_ops :: "cal_op list" where
  "window_ops = map Cal_stop known_samples @ [Cal_start, Cal_stop 9]"

lemma samples_stops: "samples (map Cal_stop us) = length us"
  by (induction us) simp_all

lemma calibration_converges_once_witness:
  "cal_count (initial_state demo_clock) = 0 \<and>
   (\<exists>s. cal_run window_ops (initial_state demo_clock) = Inr s \<and>
      transitions window_ops (initial_state demo_clock) = 1 \<and>
      (\<exists>s99. cal_run (take 99 window_ops) (initial_state demo_clock) = Inr s99 \<and> \<not> converged s99) \<and>
      (\<exists>s100. cal_run (take 100 window_ops) (initial_state demo_clock) = Inr s100 \<and> converged s100) \<and>
      converged s \<and> cal_stop 9 s = Inr s \<and> cal_start s = s)"
proof -
  let ?s0 = "initial_state demo_clock"
  have z: "cal_count ?s0 = 0"
    by (simp add: initial_state_def)
  have len: "length known_samples = 100"
    by (simp add: known_samples_def)
  from known_samples_mean [of demo_clock] obtain s where
    w: "cal_run (map Cal_stop known_samples) ?s0 = Inr s"
    by auto
  from cal_run_count [OF z w] have conv: "converged s"
    by (simp add: samples_stops len converged_def TP_TIMER_CAL_def)
  then have "cal_run [Cal_start, Cal_stop 9] s = Inr s"
    by (rule converged_run)
  then have s: "cal_run window_ops ?s0 = Inr s"
    unfolding window_ops_def cal_run_append w by simp
  note t = calibration_converges_once [OF z s]
  note p = t [THEN conjunct2, THEN conjunct1, rule_format]
    and f = t [THEN conjunct2, THEN conjunct2, rule_format]
  have n: "samples window_ops = 101" "samples (take 99 window_ops) = 99"
    "samples (take 100 window_ops) = 100"
    by (simp_all add: window_ops_def samples_append samples_stops len take_map)
  have l: "length window_ops = 102"
    by (simp add: window_ops_def len)
  from t n have tr: "transitions window_ops ?s0 = 1"
    by (simp add: TP_TIMER_CAL_def)
  from p [of 99] n l have a: "\<exists>s99. cal_run (take 99 window_ops) ?s0 = Inr s99 \<and> \<not> converged s99"
    by (simp add: TP_TIMER_CAL_def)
  from p [of 100] n l have b: "\<exists>s100. cal_run (take 100 window_ops) ?s0 = Inr s100 \<and> converged s100"
    by (simp add: TP_TIMER_CAL_def)
  from f [of s] conv have "cal_stop 9 s = Inr s \<and> cal_start s = s"
    by simp
  with z s tr a b conv show ?thesis
    by blast
qed

subsection \<open>The calibration sort leaves the sample window\<close>

text \<open>The sort of a window that is in ascending order does not leave the array, and
  the window stays as it is; so does the sort of a short array. When the last element of
  the array is its only minimum, the downward scan passes index 0.\<close>

lemma cal_sort_small_examples:
  "cal_sort [3, 1, 2, 7, 5, 5, 9] 0 6 = Inr [1, 2, 3, 5, 5, 7, 9]"
  "cal_sort [20, 10] 0 1 = Inl CalListOutOfBounds"
  by code_simp+

text \<open>A clock for which ninety-nine reads return 7 microseconds and the next one returns
  5 microseconds, and a hundred calls of \<^verbatim>\<open>tp_timer\<close>.\<close>

definition minimum_last_clock :: "nat \<Rightarrow> timeval" where
  "minimum_last_clock n = \<lparr>tv_sec = 1000, tv_usec = (if n < 99 then 7 else 5)\<rparr>"

text \<open>
  Claim C4, at a failing input. The window holds ninety-nine samples 7 and, last, the sample
  5. \<^verbatim>\<open>cal_sort\<close> takes the last element as the pivot; no element is less than or equal to it,
  so \<^verbatim>\<open>do { --j; } while (a[j] > v);\<close> decrements \<open>j\<close> below zero and reads \<^verbatim>\<open>cal_list\<close> outside
  its bounds. No correction value comes out of the call.
\<close>

theorem sort_reads_below_window:
  "appends (replicate 100 (1, 0, 0, 1)) (initial_state minimum_last_clock) = Inl CalListOutOfBounds
   \<and> cal_sort (replicate 99 7 @ [5]) 0 99 = Inl CalListOutOfBounds"
proof
  have "case appends (replicate 100 (1, 0, 0, 1)) (initial_state minimum_last_clock) of
      Inl f \<Rightarrow> f = CalListOutOfBounds | Inr s \<Rightarrow> False"
    by code_simp
  then show "appends (replicate 100 (1, 0, 0, 1)) (initial_state minimum_last_clock) =
      Inl CalListOutOfBounds"
    by (auto split: sum.splits)
  show "cal_sort (replicate 99 7 @ [5]) 0 99 = Inl CalListOutOfBounds"
    by code_simp
qed

subsection \<open>The correction is subtracted without a borrow\<close>

text \<open>A clock for which the first hundred reads return 5 microseconds and the following
  ones 3 microseconds in the next second, and a hundred and one calls of \<^verbatim>\<open>tp_timer\<close>.\<close>

definition borrow_clock :: "nat \<Rightarrow> timeval" where
  "borrow_clock n = (if n < 100 then \<lparr>tv_sec = 1000, tv_usec = 5\<rparr>
                     else \<lparr>tv_sec = 1001, tv_usec = 3\<rparr>)"

definition borrow_calls :: "(16 word \<times> 32 word \<times> 32 word \<times> 16 word) list" where
  "borrow_calls = replicate 101 (1, 0, 0, 1)"

text \<open>
  Claim C2, at a failing input. The hundred samples are all 5, so the calibration converges
  at call 100 with \<^verbatim>\<open>cal_mean = 5\<close>. Call 101 reads the time 1001 s, 3 us; the record it stores
  has \<^verbatim>\<open>tv_sec = 1001\<close> and \<^verbatim>\<open>tv_usec = -2\<close>: the seconds are not decremented and the
  microseconds are negative.
\<close>

theorem usec_underflows:
  "\<exists>s sp. appends borrow_calls (initial_state borrow_clock) = Inr s \<and>
     tp_timer_space s = Some sp \<and> cal_mean s = 5 \<and>
     tv_sec (ts (sp 100)) = 1001 \<and> sint (tv_usec (ts (sp 100))) = - 2"
proof -
  let ?r = "appends borrow_calls (initial_state borrow_clock)"
  have "case ?r of Inl f \<Rightarrow> False | Inr s \<Rightarrow> cal_mean s = 5 \<and>
      (case tp_timer_space s of None \<Rightarrow> False | Some sp \<Rightarrow>
         tv_sec (ts (sp 100)) = 1001 \<and> sint (tv_usec (ts (sp 100))) = - 2)"
    by code_simp
  then show ?thesis
    by (auto split: sum.splits option.splits)
qed

subsection \<open>Calls that cannot fault\<close>

text \<open>With the sample window in place, a call of \<^verbatim>\<open>cal_stop\<close> can only fault when it fills the
  window (\<^verbatim>\<open>cal_count = 99\<close> before the call), and so can a call of \<^verbatim>\<open>tp_timer\<close>.\<close>

lemma cal_stop_returns:
  assumes "length (cal_list s) = 100" and "0 \<le> cal_count s" and "cal_count s \<noteq> 99"
  shows "\<exists>s'. cal_stop usec s = Inr s' \<and> length (cal_list s') = 100 \<and>
    cal_count s \<le> cal_count s' \<and> cal_count s' \<le> cal_count s + 1"
proof (cases "converged s")
  case True
  with assms show ?thesis
    by (simp add: converged_fixed)
next
  case False
  with assms have "cal_count s < 99"
    by (simp add: converged_def TP_TIMER_CAL_def)
  with assms show ?thesis
    by (simp add: cal_stop_collects)
qed

lemma tp_timer_returns:
  assumes "length (cal_list s) = 100" and "0 \<le> cal_count s" and "cal_count s \<noteq> 99"
  shows "\<exists>s'. tp_timer ident sq thr rep s = Inr s' \<and> length (cal_list s') = 100 \<and>
    cal_count s \<le> cal_count s' \<and> cal_count s' \<le> cal_count s + 1"
proof -
  define s0 where "s0 = (if tp_timer_space s = None
    then tp_timer_init (printk Implicit_initialization s) else s)"
  have cal: "cal_list s0 = cal_list s" "cal_count s0 = cal_count s"
    by (simp_all add: s0_def tp_timer_init_def printk_def)
  have sp: "tp_timer_space s0 = Some (slots s)"
    by (auto simp: s0_def slots_def tp_timer_init_def printk_def)
  show ?thesis
  proof (cases "TP_TIMER_SPACE \<le> tp_timer_count s0")
    case True
    then have "tp_timer ident sq thr rep s = Inr (printk Memory_space_exceeded s0)"
      unfolding tp_timer_def s0_def [symmetric] Let_def by simp
    with cal assms show ?thesis
      by (simp add: printk_def)
  next
    case False
    let ?s1 = "s0\<lparr>ticks := Suc (ticks s0)\<rparr>"
    from cal_stop_returns [of ?s1 "tv_usec (clock s0 (ticks s0))"] assms cal
    obtain s2 where s2: "cal_stop (tv_usec (clock s0 (ticks s0))) ?s1 = Inr s2"
      and keep: "length (cal_list s2) = 100" "cal_count s \<le> cal_count s2"
        "cal_count s2 \<le> cal_count s + 1"
      by auto
    from False sp s2 have "\<exists>s'. tp_timer ident sq thr rep s = Inr s' \<and>
        cal_list s' = cal_list s2 \<and> cal_count s' = cal_count s2"
      unfolding tp_timer_def s0_def [symmetric] Let_def
      by (simp add: do_gettimeofday_def)
    with keep show ?thesis
      by auto
  qed
qed

lemma appends_returns:
  assumes "length (cal_list s) = 100" and "0 \<le> cal_count s"
    and "cal_count s + int (length cs) < 100"
  shows "\<exists>s'. appends cs s = Inr s'"
  using assms
proof (induction cs arbitrary: s)
  case Nil
  show ?case by simp
next
  case (Cons c cs)
  obtain ident sq thr rep where c: "c = (ident, sq, thr, rep)"
    by (cases c) auto
  from Cons.prems have "cal_count s \<noteq> 99"
    by simp
  from tp_timer_returns [OF Cons.prems(1,2) this, of ident sq thr rep]
  obtain s1 where s1: "tp_timer ident sq thr rep s = Inr s1" and l: "length (cal_list s1) = 100"
    and le: "cal_count s \<le> cal_count s1" and n: "cal_count s1 \<le> cal_count s + 1"
    by auto
  from n Cons.prems(3) have "cal_count s1 + int (length cs) < 100"
    by simp
  with l le Cons.prems(2) have "\<exists>s'. appends cs s1 = Inr s'"
    by (intro Cons.IH) simp_all
  with s1 c show ?case
    by simp
qed

text \<open>The timestamp a call of \<^verbatim>\<open>tp_timer\<close> stores: the seconds as the clock returned them, and
  the microseconds minus \<^verbatim>\<open>cal_mean\<close>, in 64 bit arithmetic. Nothing else is done to it.\<close>

lemma tp_timer_timestamp:
  assumes ok: "tp_timer ident sq thr rep s = Inr s'" and room: "tp_timer_count s < TP_TIMER_SPACE"
  shows "ts (slots s' (tp_timer_count s)) =
     \<lparr>tv_sec = tv_sec (clock s (ticks s)),
      tv_usec = tv_usec (clock s (ticks s)) - cal_mean s'\<rparr>"
proof -
  define s0 where "s0 = (if tp_timer_space s = None
    then tp_timer_init (printk Implicit_initialization s) else s)"
  have sp: "tp_timer_space s0 = Some (slots s)"
    by (auto simp: s0_def slots_def tp_timer_init_def printk_def)
  have cnt: "tp_timer_count s0 = tp_timer_count s" and clk: "clock s0 = clock s" "ticks s0 = ticks s"
    by (simp_all add: s0_def tp_timer_init_def printk_def)
  from room have nfull: "\<not> TP_TIMER_SPACE \<le> tp_timer_count s"
    by (simp only: not_le)
  let ?tv = "clock s (ticks s)"
  have "tp_timer ident sq thr rep s =
    (case cal_stop (tv_usec ?tv) (s0\<lparr>ticks := Suc (ticks s)\<rparr>) of
       Inl f \<Rightarrow> Inl f
     | Inr s2 \<Rightarrow> Inr (s2\<lparr>tp_timer_space :=
          Some ((slots s)(tp_timer_count s := (slots s (tp_timer_count s))\<lparr>ordinal := tp_timer_count s,
             probe := ident, seq := sq, threadnr := thr, timesrepeated := rep,
             ts := ?tv\<lparr>tv_usec := tv_usec ?tv - cal_mean s2\<rparr>\<rparr>)),
          tp_timer_count := tp_timer_count s + 1\<rparr>))"
    unfolding tp_timer_def s0_def [symmetric] Let_def
    by (simp add: nfull sp cnt clk do_gettimeofday_def cong: sum.case_cong)
  with ok obtain s2 where
    s': "s' = s2\<lparr>tp_timer_space :=
          Some ((slots s)(tp_timer_count s := (slots s (tp_timer_count s))\<lparr>ordinal := tp_timer_count s,
             probe := ident, seq := sq, threadnr := thr, timesrepeated := rep,
             ts := ?tv\<lparr>tv_usec := tv_usec ?tv - cal_mean s2\<rparr>\<rparr>)),
          tp_timer_count := tp_timer_count s + 1\<rparr>"
    by (auto split: sum.splits)
  show ?thesis
    by (simp add: s' slots_def)
qed

subsection \<open>The call that fills the window ends the run\<close>

text \<open>The out-of-bounds access of \<^verbatim>\<open>cal_sort\<close> is reached from \<^verbatim>\<open>tp_timer\<close> and from \<^verbatim>\<open>cal_stop\<close>: the
  call that stores sample number \<open>TP_TIMER_CAL\<close> sorts the window before it does anything else.
  A clock whose microseconds go down from one read to the next makes the last sample the only
  minimum of the window.\<close>

definition descending_clock :: "nat \<Rightarrow> timeval" where
  "descending_clock n = \<lparr>tv_sec = 1000, tv_usec = 500 - word_of_nat n\<rparr>"

definition descending_calls :: "(16 word \<times> 32 word \<times> 32 word \<times> 16 word) list" where
  "descending_calls = replicate 100 (2, 5, 3, 1)"

text \<open>
  Claim C3, at a failing input. The log is empty and a hundred calls of \<^verbatim>\<open>tp_timer\<close> are made,
  far fewer than \<open>TP_TIMER_SPACE\<close>. The first ninety-nine return and the counter is 99. The
  hundredth fills the calibration window with the samples 500, 499, ..., 401; the sort reads
  \<^verbatim>\<open>cal_list\<close> below index 0 before the record is stored, so the run has no final state in which
  the counter is 100 and the hundred records can be read back.
\<close>

theorem hundredth_append_faults:
  "tp_timer_count (initial_state descending_clock) = 0 \<and>
   length descending_calls = 100 \<and> length descending_calls \<le> unat TP_TIMER_SPACE \<and>
   (\<exists>s. appends (take 99 descending_calls) (initial_state descending_clock) = Inr s \<and>
      tp_timer_count s = 99) \<and>
   appends descending_calls (initial_state descending_clock) = Inl CalListOutOfBounds"
proof -
  let ?s0 = "initial_state descending_clock"
  have z: "tp_timer_count ?s0 = 0"
    by (simp add: initial_state_def)
  have l: "length descending_calls = 100" "length descending_calls \<le> unat TP_TIMER_SPACE"
    by (simp_all add: descending_calls_def TP_TIMER_SPACE_def)
  have "\<exists>s. appends (take 99 descending_calls) ?s0 = Inr s"
    by (rule appends_returns) (simp_all add: initial_state_def TP_TIMER_CAL_def descending_calls_def)
  then obtain s where s: "appends (take 99 descending_calls) ?s0 = Inr s"
    by blast
  have "length (take 99 descending_calls) \<le> unat TP_TIMER_SPACE"
    by (simp add: descending_calls_def TP_TIMER_SPACE_def)
  from appends_read_back [OF z this s] have c: "tp_timer_count s = 99"
    by (simp add: descending_calls_def)
  have "case appends descending_calls ?s0 of Inl f \<Rightarrow> f = CalListOutOfBounds | Inr s \<Rightarrow> False"
    by code_simp
  then have f: "appends descending_calls ?s0 = Inl CalListOutOfBounds"
    by (auto split: sum.splits)
  from z l s c f show ?thesis
    by blast
qed

text \<open>Exactly \<open>TP_TIMER_CAL\<close> calls of \<^verbatim>\<open>cal_stop\<close>: ninety-nine samples 7 and then the sample 5.\<close>

definition minimum_last_ops :: "cal_op list" where
  "minimum_last_ops = replicate 99 (Cal_stop 7) @ [Cal_stop 5]"

text \<open>
  Claim C8, at a failing input. The calibration is fed exactly \<open>TP_TIMER_CAL\<close> samples from
  \<^verbatim>\<open>cal_count = 0\<close>. After ninety-nine of them the state is collecting with \<^verbatim>\<open>cal_count = 99\<close>.
  The call that feeds the last sample sorts the window, and the sort reads \<^verbatim>\<open>cal_list\<close> below
  index 0 before \<^verbatim>\<open>cal_count\<close> is set to \<open>TP_TIMER_CAL + 1\<close>: the run makes no step from a
  collecting state to a converged one.
\<close>

theorem window_fill_faults:
  "cal_count (initial_state demo_clock) = 0 \<and> samples minimum_last_ops = TP_TIMER_CAL \<and>
   (\<exists>s. cal_run (take 99 minimum_last_ops) (initial_state demo_clock) = Inr s \<and> cal_count s = 99) \<and>
   cal_run minimum_last_ops (initial_state demo_clock) = Inl CalListOutOfBounds \<and>
   transitions minimum_last_ops (initial_state demo_clock) = 0"
proof -
  let ?s0 = "initial_state demo_clock"
  have z: "cal_count ?s0 = 0"
    by (simp add: initial_state_def)
  have n: "samples minimum_last_ops = TP_TIMER_CAL"
    by code_simp
  have "case cal_run (take 99 minimum_last_ops) ?s0 of Inl f \<Rightarrow> False | Inr s \<Rightarrow> cal_count s = 99"
    by code_simp
  then have p: "\<exists>s. cal_run (take 99 minimum_last_ops) ?s0 = Inr s \<and> cal_count s = 99"
    by (auto split: sum.splits)
  have "case cal_run minimum_last_ops ?s0 of Inl f \<Rightarrow> f = CalListOutOfBounds | Inr s \<Rightarrow> False"
    by code_simp
  then have f: "cal_run minimum_last_ops ?s0 = Inl CalListOutOfBounds"
    by (auto split: sum.splits)
  have t: "transitions minimum_last_ops ?s0 = 0"
    by code_simp
  from z n p f t show ?thesis
    by blast
qed

end
